theory Spec2Isabelle
  imports Complex_Main "HOL-Library.Word" "HOL-Library.Sublist" "HOL-Library.Signed_Division"
begin

section \<open>The chained hash table of HashTable.cpp\<close>

text \<open>
  The table is a vector of bucket heads stored inline, each the start of a singly linked
  chain of heap-allocated overflow nodes. The embedding keeps the pointers: a node pointer
  is the address of a vector slot or of a heap cell, the heap is an explicit store, and
  every way an operation can fail to return normally is a value of type \<open>error\<close>.
\<close>

subsection \<open>Records and nodes\<close>

text \<open>
  \<open>struct Bid\<close>. The amount is a \<open>double\<close> that the table only stores and copies; it is
  kept as a real number. \<open>Bid()\<close> leaves the strings empty and sets the amount to 0.
\<close>

record Bid =
  bidId :: string
  title :: string
  fund :: string
  amount :: real

definition Bid_default :: Bid where
  "Bid_default = \<lparr>bidId = [], title = [], fund = [], amount = 0\<rparr>"

type_synonym addr = nat

text \<open>
  \<open>struct Node\<close>. \<open>unsigned int\<close> is a 32-bit word. The \<open>next\<close> field only ever receives
  \<open>nullptr\<close>, the result of \<open>new\<close> or another \<open>next\<close> field, so it is a heap address or
  \<open>None\<close>.
\<close>

record Node =
  bid :: Bid
  key :: "32 word"
  "next" :: "addr option"

definition UINT_MAX :: "32 word" where
  "UINT_MAX = - 1"

text \<open>\<open>Node()\<close> and \<open>Node(Bid aBid, unsigned int aKey)\<close>.\<close>

definition Node_default :: Node where
  "Node_default = \<lparr>bid = Bid_default, key = UINT_MAX, next = None\<rparr>"

definition Node_new :: "Bid \<Rightarrow> 32 word \<Rightarrow> Node" where
  "Node_new aBid aKey = Node_default\<lparr>bid := aBid, key := aKey\<rparr>"

subsection \<open>The table, the heap and pointers\<close>

text \<open>
  The object: the vector \<open>nodes\<close>, \<open>tableSize\<close>, and the free store with the overflow
  nodes. Cell \<open>a\<close> of \<open>heap\<close> is allocated when \<open>a\<close> is below the length and the entry
  is \<open>Some\<close>. \<open>new\<close> takes the next address that was never used and never fails;
  \<open>delete\<close> sets the entry to \<open>None\<close>.
\<close>

record HashTable =
  nodes :: "Node list"
  tableSize :: "32 word"
  heap :: "Node option list"

text \<open>
  A \<open>Node*\<close> that is not null points to a slot of the vector (\<open>&nodes.at(i)\<close>) or to a
  heap cell.
\<close>

datatype ptr = Slot nat | Cell addr

text \<open>The ways an operation can fail to return.\<close>

datatype error =
    DivisionByZero    \<comment> \<open>\<open>key % tableSize\<close> with \<open>tableSize = 0\<close>: undefined behaviour\<close>
  | OutOfRange        \<comment> \<open>\<open>nodes.at(i)\<close> throws \<open>std::out_of_range\<close>\<close>
  | InvalidPointer    \<comment> \<open>a null, dangling or wild pointer is dereferenced or deleted\<close>
  | Diverges          \<comment> \<open>a chain walk runs round a cycle for ever\<close>

text \<open>Reading a node through a pointer.\<close>

definition deref :: "Node option list \<Rightarrow> addr \<Rightarrow> Node option" where
  "deref h a = (if a < length h then h ! a else None)"

definition load :: "HashTable \<Rightarrow> ptr \<Rightarrow> error + Node" where
  "load t p =
     (case p of
        Slot i \<Rightarrow> (if i < length (nodes t) then Inr (nodes t ! i) else Inl InvalidPointer)
      | Cell a \<Rightarrow> (case deref (heap t) a of None \<Rightarrow> Inl InvalidPointer | Some n \<Rightarrow> Inr n))"

text \<open>An assignment through a node pointer: \<open>p->field = ...\<close>.\<close>

definition store :: "HashTable \<Rightarrow> ptr \<Rightarrow> (Node \<Rightarrow> Node) \<Rightarrow> error + HashTable" where
  "store t p f =
     (case p of
        Slot i \<Rightarrow>
          (if i < length (nodes t) then Inr (t\<lparr>nodes := (nodes t)[i := f (nodes t ! i)]\<rparr>)
           else Inl InvalidPointer)
      | Cell a \<Rightarrow>
          (case deref (heap t) a of
             None \<Rightarrow> Inl InvalidPointer
           | Some n \<Rightarrow> Inr (t\<lparr>heap := (heap t)[a := Some (f n)]\<rparr>)))"

text \<open>\<open>new Node(...)\<close> and \<open>delete node\<close>. Only heap cells can be deleted.\<close>

definition alloc :: "HashTable \<Rightarrow> Node \<Rightarrow> addr \<times> HashTable" where
  "alloc t n = (length (heap t), t\<lparr>heap := heap t @ [Some n]\<rparr>)"

definition free :: "HashTable \<Rightarrow> ptr \<Rightarrow> error + HashTable" where
  "free t p =
     (case p of
        Slot i \<Rightarrow> Inl InvalidPointer
      | Cell a \<Rightarrow>
          (case deref (heap t) a of
             None \<Rightarrow> Inl InvalidPointer
           | Some n \<Rightarrow> Inr (t\<lparr>heap := (heap t)[a := None]\<rparr>)))"

subsection \<open>Construction\<close>

definition DEFAULT_SIZE :: "32 word" where
  "DEFAULT_SIZE = 179"

text \<open>\<open>HashTable(unsigned int size)\<close>: \<open>nodes.resize(size)\<close> default-constructs every slot.\<close>

definition HashTable_new :: "32 word \<Rightarrow> HashTable" where
  "HashTable_new sz = \<lparr>nodes = replicate (unat sz) Node_default, tableSize = sz, heap = []\<rparr>"

definition HashTable_default :: HashTable where
  "HashTable_default = HashTable_new DEFAULT_SIZE"

subsection \<open>atoi\<close>

text \<open>
  \<open>atoi\<close> skips white space, reads an optional sign and then decimal digits, and stops at
  the first other character; with no digit the value is 0. A value that does not fit is
  outside the C standard; the model follows glibc, where \<open>atoi\<close> is \<open>(int) strtol(s, 0, 10)\<close>:
  the value saturates at the bounds of a 64-bit \<open>long\<close> and is then cut to 32 bits. The
  result is the two's complement word of the \<open>int\<close>.
\<close>

definition isspace :: "char \<Rightarrow> bool" where
  "isspace c = (c = CHR 0x20 \<or> c = CHR 0x09 \<or> c = CHR 0x0A \<or> c = CHR 0x0B \<or> c = CHR 0x0C \<or> c = CHR 0x0D)"

definition isdigit :: "char \<Rightarrow> bool" where
  "isdigit c = (48 \<le> (of_char c :: nat) \<and> (of_char c :: nat) \<le> 57)"

fun digits :: "int \<Rightarrow> string \<Rightarrow> int" where
  "digits acc [] = acc"
| "digits acc (c # cs) = (if isdigit c then digits (acc * 10 + (of_char c - 48)) cs else acc)"

definition clamp_long :: "int \<Rightarrow> int" where
  "clamp_long v = max (- (2 ^ 63)) (min (2 ^ 63 - 1) v)"

definition strtol :: "string \<Rightarrow> int" where
  "strtol s =
     (case dropWhile isspace s of
        [] \<Rightarrow> 0
      | c # cs \<Rightarrow>
          if c = CHR ''-'' then clamp_long (- digits 0 cs)
          else if c = CHR ''+'' then clamp_long (digits 0 cs)
          else clamp_long (digits 0 (c # cs)))"

definition atoi :: "string \<Rightarrow> 32 word" where
  "atoi s = word_of_int (strtol s)"

text \<open>
  After the white space and an optional sign there is no digit: \<open>atoi\<close> converts nothing.
\<close>

definition no_number :: "string \<Rightarrow> bool" where
  "no_number s =
     (case dropWhile isspace s of
        [] \<Rightarrow> True
      | c # cs \<Rightarrow>
          if c = CHR ''-'' \<or> c = CHR ''+'' then (case cs of [] \<Rightarrow> True | d # ds \<Rightarrow> \<not> isdigit d)
          else \<not> isdigit c)"

subsection \<open>The operations\<close>

text \<open>
  \<open>hash(int key)\<close> returns \<open>key % tableSize\<close>: the \<open>int\<close> is converted to \<open>unsigned int\<close>
  (the same 32 bits) and the remainder is unsigned. A zero divisor is undefined behaviour.
\<close>

definition hash :: "HashTable \<Rightarrow> 32 word \<Rightarrow> error + 32 word" where
  "hash t k = (if tableSize t = 0 then Inl DivisionByZero else Inr (k mod tableSize t))"

text \<open>
  \<open>&nodes.at(i)\<close>: the bounds check of \<open>vector::at\<close> throws. The index is a \<open>size_t\<close>,
  which holds every \<open>unsigned int\<close>.
\<close>

definition nodes_at :: "HashTable \<Rightarrow> nat \<Rightarrow> error + ptr" where
  "nodes_at t i = (if i < length (nodes t) then Inr (Slot i) else Inl OutOfRange)"

text \<open>
  The loop of \<open>Insert\<close> and of \<open>Remove\<close> (the same text in both):
  \<^verbatim>\<open>while (node != nullptr && node->bid.bidId != bidId) { prev = node; node = node->next; }\<close>
  It returns the final \<open>prev\<close> and \<open>node\<close>. The first argument bounds the number of
  iterations; the operations pass two more than the number of heap cells, which only a
  walk round a cycle can use up.
\<close>

fun walk :: "nat \<Rightarrow> HashTable \<Rightarrow> string \<Rightarrow> ptr option \<Rightarrow> ptr option \<Rightarrow> error + (ptr option \<times> ptr option)" where
  "walk 0 t s prev node = Inl Diverges"
| "walk (Suc f) t s prev None = Inr (prev, None)"
| "walk (Suc f) t s prev (Some p) =
     (case load t p of
        Inl e \<Rightarrow> Inl e
      | Inr n \<Rightarrow>
          if bidId (bid n) \<noteq> s then walk f t s (Some p) (map_option Cell (next n))
          else Inr (prev, Some p))"

definition fuel :: "HashTable \<Rightarrow> nat" where
  "fuel t = length (heap t) + 2"

definition Insert :: "HashTable \<Rightarrow> Bid \<Rightarrow> error + HashTable" where
  "Insert t b =
     (case hash t (atoi (bidId b)) of
        Inl e \<Rightarrow> Inl e
      | Inr k \<Rightarrow>
     (case nodes_at t (unat k) of
        Inl e \<Rightarrow> Inl e
      | Inr node \<Rightarrow>
     (case load t node of
        Inl e \<Rightarrow> Inl e
      | Inr n \<Rightarrow>
          if key n = UINT_MAX then store t node (\<lambda>m. m\<lparr>key := k, bid := b, next := None\<rparr>)
          else
            (case walk (fuel t) t (bidId b) None (Some node) of
               Inl e \<Rightarrow> Inl e
             | Inr (prev, Some found) \<Rightarrow> Inr t
             | Inr (prev, None) \<Rightarrow>
                 (case alloc t (Node_new b k) of
                    (a, t1) \<Rightarrow>
                      (case prev of
                         None \<Rightarrow> Inl InvalidPointer
                       | Some q \<Rightarrow> store t1 q (\<lambda>m. m\<lparr>next := Some a\<rparr>)))))))"

definition Remove :: "HashTable \<Rightarrow> string \<Rightarrow> error + HashTable" where
  "Remove t s =
     (case hash t (atoi s) of
        Inl e \<Rightarrow> Inl e
      | Inr k \<Rightarrow>
     (case nodes_at t (unat k) of
        Inl e \<Rightarrow> Inl e
      | Inr node \<Rightarrow>
     (case walk (fuel t) t s None (Some node) of
        Inl e \<Rightarrow> Inl e
      | Inr (prev, None) \<Rightarrow> Inr t
      | Inr (None, Some found) \<Rightarrow>
          (case nodes_at t (unat k) of
             Inl e \<Rightarrow> Inl e
           | Inr slot \<Rightarrow> store t slot (\<lambda>m. m\<lparr>key := UINT_MAX, next := None\<rparr>))
      | Inr (Some q, Some found) \<Rightarrow>
          (case load t found of
             Inl e \<Rightarrow> Inl e
           | Inr n \<Rightarrow>
               (case store t q (\<lambda>m. m\<lparr>next := next n\<rparr>) of
                  Inl e \<Rightarrow> Inl e
                | Inr t1 \<Rightarrow> free t1 found)))))"

text \<open>
  The loop of \<open>Search\<close>; falling off the end returns the default-constructed \<open>Bid\<close>.
\<close>

fun Search_loop :: "nat \<Rightarrow> HashTable \<Rightarrow> string \<Rightarrow> ptr option \<Rightarrow> error + Bid" where
  "Search_loop 0 t s node = Inl Diverges"
| "Search_loop (Suc f) t s None = Inr Bid_default"
| "Search_loop (Suc f) t s (Some p) =
     (case load t p of
        Inl e \<Rightarrow> Inl e
      | Inr n \<Rightarrow>
          if bidId (bid n) = s then Inr (bid n)
          else Search_loop f t s (map_option Cell (next n)))"

definition Search :: "HashTable \<Rightarrow> string \<Rightarrow> error + Bid" where
  "Search t s =
     (case hash t (atoi s) of
        Inl e \<Rightarrow> Inl e
      | Inr k \<Rightarrow>
     (case nodes_at t (unat k) of
        Inl e \<Rightarrow> Inl e
      | Inr node \<Rightarrow> Search_loop (fuel t) t s (Some node)))"

text \<open>
  \<open>PrintAll\<close> writes one line per record. A line is kept as the data it prints: the
  bucket index and the record for a head, the record alone for a chained node.
\<close>

datatype line = Key_line nat Bid | Chain_line Bid

fun PrintAll_chain :: "nat \<Rightarrow> HashTable \<Rightarrow> addr option \<Rightarrow> error + line list" where
  "PrintAll_chain 0 t node = Inl Diverges"
| "PrintAll_chain (Suc f) t None = Inr []"
| "PrintAll_chain (Suc f) t (Some a) =
     (case load t (Cell a) of
        Inl e \<Rightarrow> Inl e
      | Inr n \<Rightarrow>
          (case PrintAll_chain f t (next n) of
             Inl e \<Rightarrow> Inl e
           | Inr ls \<Rightarrow> Inr (Chain_line (bid n) # ls)))"

fun PrintAll_from :: "HashTable \<Rightarrow> nat list \<Rightarrow> error + line list" where
  "PrintAll_from t [] = Inr []"
| "PrintAll_from t (i # is) =
     (case nodes_at t i of
        Inl e \<Rightarrow> Inl e
      | Inr node \<Rightarrow>
     (case load t node of
        Inl e \<Rightarrow> Inl e
      | Inr n \<Rightarrow>
          (case (if key n \<noteq> UINT_MAX
                 then (case PrintAll_chain (fuel t) t (next n) of
                         Inl e \<Rightarrow> Inl e
                       | Inr ls \<Rightarrow> Inr (Key_line i (bid n) # ls))
                 else Inr []) of
             Inl e \<Rightarrow> Inl e
           | Inr ls \<Rightarrow>
               (case PrintAll_from t is of
                  Inl e \<Rightarrow> Inl e
                | Inr rest \<Rightarrow> Inr (ls @ rest)))))"

definition PrintAll :: "HashTable \<Rightarrow> error + (HashTable \<times> line list)" where
  "PrintAll t =
     (case PrintAll_from t [0..<length (nodes t)] of
        Inl e \<Rightarrow> Inl e
      | Inr ls \<Rightarrow> Inr (t, ls))"

subsection \<open>Sequences of operations and reachable tables\<close>

text \<open>A sequence of calls stops at the first one that does not return.\<close>

datatype op = Ins Bid | Rem string

fun run :: "HashTable \<Rightarrow> op list \<Rightarrow> error + HashTable" where
  "run t [] = Inr t"
| "run t (Ins b # ops) = (case Insert t b of Inl e \<Rightarrow> Inl e | Inr t' \<Rightarrow> run t' ops)"
| "run t (Rem s # ops) = (case Remove t s of Inl e \<Rightarrow> Inl e | Inr t' \<Rightarrow> run t' ops)"

text \<open>
  A table is reachable when it is constructed, or comes from a reachable table by an
  \<open>Insert\<close> or a \<open>Remove\<close> that returns.
\<close>

inductive reachable :: "HashTable \<Rightarrow> bool" where
  reachable_new: "reachable (HashTable_new sz)"
| reachable_Insert: "reachable t \<Longrightarrow> Insert t b = Inr t' \<Longrightarrow> reachable t'"
| reachable_Remove: "reachable t \<Longrightarrow> Remove t s = Inr t' \<Longrightarrow> reachable t'"

subsection \<open>The contents of a table\<close>

text \<open>
  The cells of a chain, read off the heap from a \<open>next\<close> field to the null pointer, each
  with its address. The walk stops early at an unallocated address or when the bound is
  used up; neither happens in a reachable table.
\<close>

fun chain_cells :: "nat \<Rightarrow> Node option list \<Rightarrow> addr option \<Rightarrow> (addr \<times> Node) list" where
  "chain_cells 0 h p = []"
| "chain_cells (Suc f) h None = []"
| "chain_cells (Suc f) h (Some a) =
     (case deref h a of None \<Rightarrow> [] | Some n \<Rightarrow> (a, n) # chain_cells f h (next n))"

definition chain :: "HashTable \<Rightarrow> nat \<Rightarrow> (addr \<times> Node) list" where
  "chain t i = chain_cells (fuel t) (heap t) (next (nodes t ! i))"

text \<open>
  The records of bucket \<open>i\<close>: none when the head slot carries the empty key, else the head's
  record followed by the records of the chained cells.
\<close>

definition entries :: "HashTable \<Rightarrow> nat \<Rightarrow> Bid list" where
  "entries t i =
     (if key (nodes t ! i) = UINT_MAX then []
      else bid (nodes t ! i) # map (\<lambda>c. bid (snd c)) (chain t i))"

text \<open>
  The records of the table, bucket by bucket, and the identifiers stored in it. These are
  the records \<open>PrintAll\<close> writes.
\<close>

definition contents :: "HashTable \<Rightarrow> Bid list" where
  "contents t = concat (map (entries t) [0..<length (nodes t)])"

definition stored :: "HashTable \<Rightarrow> string \<Rightarrow> bool" where
  "stored t s = (s \<in> set (map bidId (contents t)))"

text \<open>The bucket an identifier is sent to, as an index of the vector.\<close>

definition home :: "HashTable \<Rightarrow> string \<Rightarrow> nat" where
  "home t s = unat (atoi s mod tableSize t)"

text \<open>The lines \<open>PrintAll\<close> writes for a bucket with the given records.\<close>

fun bucket_lines :: "nat \<Rightarrow> Bid list \<Rightarrow> line list" where
  "bucket_lines i [] = []"
| "bucket_lines i (b # bs) = Key_line i b # map Chain_line bs"

fun line_bid :: "line \<Rightarrow> Bid" where
  "line_bid (Key_line i b) = b"
| "line_bid (Chain_line b) = b"

subsection \<open>The two effects of Remove\<close>

text \<open>The table after the head of bucket \<open>k\<close> is marked empty and its next link dropped.\<close>

definition mark_empty :: "HashTable \<Rightarrow> nat \<Rightarrow> HashTable" where
  "mark_empty t k = t\<lparr>nodes := (nodes t)[k := (nodes t ! k)\<lparr>key := UINT_MAX, next := None\<rparr>]\<rparr>"

text \<open>
  The table after the chained cell \<open>c\<close> of bucket \<open>k\<close> is unlinked and released, where
  \<open>pre\<close> are the cells of the chain before \<open>c\<close>: the node before \<open>c\<close> (the head slot
  when \<open>pre\<close> is empty, else the last cell of \<open>pre\<close>) gets the next link of \<open>c\<close>, and the
  address of \<open>c\<close> is freed.
\<close>

definition unlink :: "HashTable \<Rightarrow> nat \<Rightarrow> (addr \<times> Node) list \<Rightarrow> addr \<times> Node \<Rightarrow> HashTable" where
  "unlink t k pre c =
     (if pre = []
      then t\<lparr>nodes := (nodes t)[k := (nodes t ! k)\<lparr>next := next (snd c)\<rparr>],
             heap := (heap t)[fst c := None]\<rparr>
      else t\<lparr>heap := (heap t)[fst (last pre) := Some ((snd (last pre))\<lparr>next := next (snd c)\<rparr>),
                               fst c := None]\<rparr>)"

subsection \<open>Example tables\<close>

text \<open>A record and a node with a given identifier.\<close>

definition example_bid :: "string \<Rightarrow> Bid" where
  "example_bid s = \<lparr>bidId = s, title = ''title'', fund = ''fund'', amount = 1\<rparr>"

definition example_node :: "string \<Rightarrow> 32 word \<Rightarrow> addr option \<Rightarrow> Node" where
  "example_node s k nxt = \<lparr>bid = example_bid s, key = k, next = nxt\<rparr>"

text \<open>
  A table of size 2 after inserting the identifiers 0, 2, 4, 6 and 1 in this order: bucket 0
  holds 0 in its head and 2, 4, 6 in heap cells 0, 1, 2; bucket 1 holds 1.
\<close>

definition example_table :: HashTable where
  "example_table =
     \<lparr>nodes = [example_node ''0'' 0 (Some 0), example_node ''1'' 1 None],
      tableSize = 2,
      heap = [Some (example_node ''2'' 0 (Some 1)), Some (example_node ''4'' 0 (Some 2)),
              Some (example_node ''6'' 0 None)]\<rparr>"

text \<open>The same table after \<open>Remove\<close> of the head identifier 0.\<close>

definition example_head_removed :: HashTable where
  "example_head_removed =
     \<lparr>nodes = [example_node ''0'' UINT_MAX None, example_node ''1'' 1 None],
      tableSize = 2,
      heap = [Some (example_node ''2'' 0 (Some 1)), Some (example_node ''4'' 0 (Some 2)),
              Some (example_node ''6'' 0 None)]\<rparr>"

text \<open>The example table after \<open>Remove\<close> of the chained identifier 4.\<close>

definition example_spliced :: HashTable where
  "example_spliced =
     \<lparr>nodes = [example_node ''0'' 0 (Some 0), example_node ''1'' 1 None],
      tableSize = 2,
      heap = [Some (example_node ''2'' 0 (Some 2)), None, Some (example_node ''6'' 0 None)]\<rparr>"

text \<open>The example table after \<open>Insert\<close> of the new identifier 8.\<close>

definition example_appended :: HashTable where
  "example_appended =
     \<lparr>nodes = [example_node ''0'' 0 (Some 0), example_node ''1'' 1 None],
      tableSize = 2,
      heap = [Some (example_node ''2'' 0 (Some 1)), Some (example_node ''4'' 0 (Some 2)),
              Some (example_node ''6'' 0 (Some 3)), Some (example_node ''8'' 0 None)]\<rparr>"

text \<open>
  A table of size 5 after inserting the identifiers 0, 5, 10 and 1, and the same table
  after \<open>Remove\<close> of 0.
\<close>

definition scenario_table :: HashTable where
  "scenario_table =
     \<lparr>nodes = [example_node ''0'' 0 (Some 0), example_node ''1'' 1 None,
               Node_default, Node_default, Node_default],
      tableSize = 5,
      heap = [Some (example_node ''5'' 0 (Some 1)), Some (example_node ''10'' 0 None)]\<rparr>"

definition scenario_head_removed :: HashTable where
  "scenario_head_removed =
     \<lparr>nodes = [example_node ''0'' UINT_MAX None, example_node ''1'' 1 None,
               Node_default, Node_default, Node_default],
      tableSize = 5,
      heap = [Some (example_node ''5'' 0 (Some 1)), Some (example_node ''10'' 0 None)]\<rparr>"

subsection \<open>Well-formed tables\<close>

text \<open>
  \<open>path h p cs\<close>: following \<open>next\<close> from \<open>p\<close> visits exactly the allocated cells \<open>cs\<close> and
  then reaches the null pointer.
\<close>

fun path :: "Node option list \<Rightarrow> addr option \<Rightarrow> (addr \<times> Node) list \<Rightarrow> bool" where
  "path h p [] = (p = None)"
| "path h p (c # cs) = (p = Some (fst c) \<and> deref h (fst c) = Some (snd c) \<and> path h (next (snd c)) cs)"

text \<open>
  What holds of bucket \<open>i\<close> with chain \<open>cs\<close> in every reachable table: the chain is a path
  without repeated cells, every chained cell carries the bucket's index as its key and a
  record whose identifier is sent to this bucket, an empty head has no chain, and an
  occupied bucket holds each identifier once.
\<close>

definition bucket_inv :: "HashTable \<Rightarrow> nat \<Rightarrow> (addr \<times> Node) list \<Rightarrow> bool" where
  "bucket_inv t i cs =
     (path (heap t) (next (nodes t ! i)) cs \<and>
      distinct (map fst cs) \<and>
      (\<forall>c \<in> set cs. key (snd c) = of_nat i \<and> home t (bidId (bid (snd c))) = i) \<and>
      (key (nodes t ! i) = UINT_MAX \<longrightarrow> next (nodes t ! i) = None) \<and>
      (key (nodes t ! i) \<noteq> UINT_MAX \<longrightarrow>
         home t (bidId (bid (nodes t ! i))) = i \<and>
         distinct (map bidId (bid (nodes t ! i) # map (\<lambda>c. bid (snd c)) cs))))"

definition inv :: "HashTable \<Rightarrow> bool" where
  "inv t =
     (length (nodes t) = unat (tableSize t) \<and>
      (\<forall>i < length (nodes t). bucket_inv t i (chain t i)))"

subsection \<open>Auxiliary notions for the proofs\<close>

text \<open>
  The value of \<open>prev\<close> after a walk over the cells \<open>cs\<close>, and the same when the walk
  started at the head slot of bucket \<open>i\<close>.
\<close>

definition last_ptr :: "ptr option \<Rightarrow> (addr \<times> Node) list \<Rightarrow> ptr option" where
  "last_ptr prev cs = (if cs = [] then prev else Some (Cell (fst (last cs))))"

definition tail_ptr :: "nat \<Rightarrow> (addr \<times> Node) list \<Rightarrow> ptr" where
  "tail_ptr i cs = (if cs = [] then Slot i else Cell (fst (last cs)))"

text \<open>Two chains with the same addresses, records and keys; the next links may differ.\<close>

definition same_cells :: "(addr \<times> Node) list \<Rightarrow> (addr \<times> Node) list \<Rightarrow> bool" where
  "same_cells cs ds = (map (\<lambda>c. (fst c, bid (snd c), key (snd c))) cs = map (\<lambda>c. (fst c, bid (snd c), key (snd c))) ds)"

section \<open>Paths in the heap and the loops\<close>

lemma path_in_heap: "path h p cs \<Longrightarrow> c \<in> set cs \<Longrightarrow> fst c < length h \<and> deref h (fst c) = Some (snd c)"
  by (induction cs arbitrary: p) (auto simp: deref_def split: if_splits)

lemma path_length:
  assumes "path h p cs" and "distinct (map fst cs)"
  shows "length cs \<le> length h"
proof -
  have "fst ` set cs \<subseteq> {..<length h}"
    using path_in_heap [OF assms(1)] by auto
  then have "card (fst ` set cs) \<le> card {..<length h}"
    by (intro card_mono) auto
  moreover have "card (fst ` set cs) = length cs"
    using assms(2) distinct_card [of "map fst cs"] by simp
  ultimately show ?thesis by simp
qed

lemma chain_cells_path: "path h p cs \<Longrightarrow> length cs < f \<Longrightarrow> chain_cells f h p = cs"
proof (induction cs arbitrary: p f)
  case Nil
  then show ?case by (cases f) auto
next
  case (Cons c cs)
  then obtain g where "f = Suc g" by (cases f) auto
  with Cons show ?case by auto
qed

lemma path_update: "path h p cs \<Longrightarrow> a \<notin> fst ` set cs \<Longrightarrow> path (h[a := v]) p cs"
  by (induction cs arbitrary: p) (auto simp: deref_def split: if_splits)

lemma path_extend: "path h p cs \<Longrightarrow> path (h @ xs) p cs"
  by (induction cs arbitrary: p) (auto simp: deref_def nth_append split: if_splits)

lemma load_Cell: "deref (heap t) a = Some n \<Longrightarrow> load t (Cell a) = Inr n"
  by (simp add: load_def)

lemma load_Slot: "i < length (nodes t) \<Longrightarrow> load t (Slot i) = Inr (nodes t ! i)"
  by (simp add: load_def)

lemma walk_none:
  "path (heap t) p cs \<Longrightarrow> length cs < f \<Longrightarrow> \<forall>c \<in> set cs. bidId (bid (snd c)) \<noteq> s \<Longrightarrow>
   walk f t s prev (map_option Cell p) = Inr (last_ptr prev cs, None)"
proof (induction cs arbitrary: p f prev)
  case Nil
  then show ?case by (cases f) (auto simp: last_ptr_def)
next
  case (Cons c cs)
  then obtain g where f: "f = Suc g" by (cases f) auto
  from Cons.prems have p: "p = Some (fst c)" and d: "deref (heap t) (fst c) = Some (snd c)"
    and rest: "path (heap t) (next (snd c)) cs" by auto
  have "walk g t s (Some (Cell (fst c))) (map_option Cell (next (snd c)))
          = Inr (last_ptr (Some (Cell (fst c))) cs, None)"
    using Cons.IH [OF rest] Cons.prems f by auto
  then show ?case
    using Cons.prems f p d by (simp add: load_Cell last_ptr_def)
qed

lemma walk_found:
  "path (heap t) p (pre @ c # post) \<Longrightarrow> length (pre @ c # post) < f \<Longrightarrow>
   \<forall>c' \<in> set pre. bidId (bid (snd c')) \<noteq> s \<Longrightarrow> bidId (bid (snd c)) = s \<Longrightarrow>
   walk f t s prev (map_option Cell p) = Inr (last_ptr prev pre, Some (Cell (fst c)))"
proof (induction pre arbitrary: p f prev)
  case Nil
  then obtain g where f: "f = Suc g" by (cases f) auto
  with Nil show ?case by (simp add: load_Cell last_ptr_def)
next
  case (Cons d pre)
  then obtain g where f: "f = Suc g" by (cases f) auto
  from Cons.prems have p: "p = Some (fst d)" and d: "deref (heap t) (fst d) = Some (snd d)"
    and rest: "path (heap t) (next (snd d)) (pre @ c # post)" by auto
  have "walk g t s (Some (Cell (fst d))) (map_option Cell (next (snd d)))
          = Inr (last_ptr (Some (Cell (fst d))) pre, Some (Cell (fst c)))"
    using Cons.IH [OF rest] Cons.prems f by auto
  then show ?case
    using Cons.prems f p d by (simp add: load_Cell last_ptr_def)
qed

lemma Search_loop_none:
  "path (heap t) p cs \<Longrightarrow> length cs < f \<Longrightarrow> \<forall>c \<in> set cs. bidId (bid (snd c)) \<noteq> s \<Longrightarrow>
   Search_loop f t s (map_option Cell p) = Inr Bid_default"
proof (induction cs arbitrary: p f)
  case Nil
  then show ?case by (cases f) auto
next
  case (Cons c cs)
  then obtain g where f: "f = Suc g" by (cases f) auto
  with Cons show ?case by (auto simp: load_Cell)
qed

lemma Search_loop_found:
  "path (heap t) p (pre @ c # post) \<Longrightarrow> length (pre @ c # post) < f \<Longrightarrow>
   \<forall>c' \<in> set pre. bidId (bid (snd c')) \<noteq> s \<Longrightarrow> bidId (bid (snd c)) = s \<Longrightarrow>
   Search_loop f t s (map_option Cell p) = Inr (bid (snd c))"
proof (induction pre arbitrary: p f)
  case Nil
  then obtain g where f: "f = Suc g" by (cases f) auto
  with Nil show ?case by (simp add: load_Cell)
next
  case (Cons d pre)
  then obtain g where f: "f = Suc g" by (cases f) auto
  with Cons show ?case by (auto simp: load_Cell)
qed

lemma PrintAll_chain_path:
  "path (heap t) p cs \<Longrightarrow> length cs < f \<Longrightarrow>
   PrintAll_chain f t p = Inr (map (\<lambda>c. Chain_line (bid (snd c))) cs)"
proof (induction cs arbitrary: p f)
  case Nil
  then show ?case by (cases f) auto
next
  case (Cons c cs)
  then obtain g where f: "f = Suc g" by (cases f) auto
  with Cons show ?case by (auto simp: load_Cell)
qed

text \<open>
  The bound on the iterations does not matter: a loop that returns within some bound
  returns the same with any larger one.
\<close>

lemma walk_more_fuel:
  "walk f t s prev node \<noteq> Inl Diverges \<Longrightarrow> walk (f + d) t s prev node = walk f t s prev node"
proof (induction f t s prev node rule: walk.induct)
  case (1 t s prev node)
  then show ?case by simp
next
  case (2 f t s prev)
  then show ?case by simp
next
  case (3 f t s prev p)
  then show ?case by (cases "load t p") auto
qed

lemma Search_loop_more_fuel:
  "Search_loop f t s node \<noteq> Inl Diverges \<Longrightarrow> Search_loop (f + d) t s node = Search_loop f t s node"
proof (induction f t s node rule: Search_loop.induct)
  case (1 t s node)
  then show ?case by simp
next
  case (2 f t s)
  then show ?case by simp
next
  case (3 f t s p)
  then show ?case by (cases "load t p") auto
qed

lemma PrintAll_chain_more_fuel:
  "PrintAll_chain f t node \<noteq> Inl Diverges \<Longrightarrow> PrintAll_chain (f + d) t node = PrintAll_chain f t node"
proof (induction f t node rule: PrintAll_chain.induct)
  case (1 t node)
  then show ?case by simp
next
  case (2 f t)
  then show ?case by simp
next
  case (3 f t a)
  show ?case
  proof (cases "load t (Cell a)")
    case (Inl e)
    then show ?thesis by simp
  next
    case (Inr n)
    with 3 show ?thesis by (cases "PrintAll_chain f t (next n)") auto
  qed
qed

text \<open>Splitting a chain at the first cell with a given identifier.\<close>

lemma split_first:
  "\<exists>c \<in> set cs. P c \<Longrightarrow> \<exists>pre c post. cs = pre @ c # post \<and> P c \<and> (\<forall>c' \<in> set pre. \<not> P c')"
  using split_list_first_prop [of cs P] by blast

lemma same_cells_Nil [simp]: "same_cells [] []"
  by (simp add: same_cells_def)

lemma same_cells_Cons:
  "same_cells (c # cs) (d # ds) = (fst c = fst d \<and> bid (snd c) = bid (snd d) \<and> key (snd c) = key (snd d) \<and> same_cells cs ds)"
  by (auto simp: same_cells_def)

lemma same_cells_fst: "same_cells cs ds \<Longrightarrow> map fst cs = map fst ds"
proof -
  assume "same_cells cs ds"
  then have "map fst (map (\<lambda>c. (fst c, bid (snd c), key (snd c))) cs) = map fst (map (\<lambda>c. (fst c, bid (snd c), key (snd c))) ds)"
    by (simp only: same_cells_def)
  then show ?thesis by (simp add: comp_def)
qed

lemma same_cells_bid: "same_cells cs ds \<Longrightarrow> map (\<lambda>c. bid (snd c)) cs = map (\<lambda>c. bid (snd c)) ds"
proof -
  assume "same_cells cs ds"
  then have "map (\<lambda>x. fst (snd x)) (map (\<lambda>c. (fst c, bid (snd c), key (snd c))) cs) = map (\<lambda>x. fst (snd x)) (map (\<lambda>c. (fst c, bid (snd c), key (snd c))) ds)"
    by (simp only: same_cells_def)
  then show ?thesis by (simp add: comp_def)
qed

lemma same_cells_length: "same_cells cs ds \<Longrightarrow> length cs = length ds"
  using same_cells_fst [of cs ds] map_eq_imp_length_eq by blast

lemma path_snoc:
  "path h p cs \<Longrightarrow> cs \<noteq> [] \<Longrightarrow> distinct (map fst cs) \<Longrightarrow> next m = None \<Longrightarrow>
   \<exists>cs'. path ((h @ [Some m])[fst (last cs) := Some ((snd (last cs))\<lparr>next := Some (length h)\<rparr>)]) p (cs' @ [(length h, m)])
          \<and> same_cells cs' cs"
proof (induction cs arbitrary: p)
  case Nil
  then show ?case by simp
next
  case (Cons c cs)
  from Cons.prems have p: "p = Some (fst c)" and d: "deref h (fst c) = Some (snd c)"
    and rest: "path h (next (snd c)) cs" by auto
  from d have lt: "fst c < length h" by (auto simp: deref_def split: if_splits)
  show ?case
  proof (cases "cs = []")
    case True
    let ?c' = "(fst c, (snd c)\<lparr>next := Some (length h)\<rparr>)"
    have "path ((h @ [Some m])[fst c := Some ((snd c)\<lparr>next := Some (length h)\<rparr>)]) p ([?c'] @ [(length h, m)])"
      using p lt Cons.prems(4) by (simp add: deref_def nth_append)
    moreover have "same_cells [?c'] [c]"
      by (simp add: same_cells_Cons)
    ultimately show ?thesis unfolding True by (intro exI [of _ "[?c']"]) simp
  next
    case False
    let ?h' = "(h @ [Some m])[fst (last cs) := Some ((snd (last cs))\<lparr>next := Some (length h)\<rparr>)]"
    from Cons.IH [OF rest False] Cons.prems obtain cs' where
      cs': "path ?h' (next (snd c)) (cs' @ [(length h, m)])" and same: "same_cells cs' cs"
      by auto
    have "fst (last cs) \<in> fst ` set cs" using False by simp
    moreover have "fst c \<notin> fst ` set cs" using Cons.prems(3) by simp
    ultimately have ne: "fst (last cs) \<noteq> fst c" by metis
    have "deref ?h' (fst c) = Some (snd c)"
      using d lt ne by (simp add: deref_def nth_append)
    then have "path ?h' p ((c # cs') @ [(length h, m)])"
      using p cs' by simp
    moreover have "same_cells (c # cs') (c # cs)"
      using same by (simp add: same_cells_Cons)
    ultimately show ?thesis using False by (metis last_ConsR)
  qed
qed

lemma path_splice:
  "path h p (pre @ c # post) \<Longrightarrow> pre \<noteq> [] \<Longrightarrow> distinct (map fst (pre @ c # post)) \<Longrightarrow>
   \<exists>pre'. path (h[fst (last pre) := Some ((snd (last pre))\<lparr>next := next (snd c)\<rparr>), fst c := None]) p (pre' @ post)
          \<and> same_cells pre' pre"
proof (induction pre arbitrary: p)
  case Nil
  then show ?case by simp
next
  case (Cons d pre)
  from Cons.prems have p: "p = Some (fst d)" and d: "deref h (fst d) = Some (snd d)"
    and rest: "path h (next (snd d)) (pre @ c # post)" by auto
  from d have lt: "fst d < length h" by (auto simp: deref_def split: if_splits)
  show ?case
  proof (cases "pre = []")
    case True
    let ?d' = "(fst d, (snd d)\<lparr>next := next (snd c)\<rparr>)"
    let ?h' = "h[fst d := Some ((snd d)\<lparr>next := next (snd c)\<rparr>), fst c := None]"
    from rest True have post: "path h (next (snd c)) post" by simp
    from Cons.prems(3) True have "fst d \<notin> fst ` set post" "fst c \<notin> fst ` set post" "fst d \<noteq> fst c"
      by auto
    then have "path ?h' (next (snd c)) post" "deref ?h' (fst d) = Some ((snd d)\<lparr>next := next (snd c)\<rparr>)"
      using post lt by (auto simp: path_update deref_def)
    then have "path ?h' p ([?d'] @ post)" using p by simp
    moreover have "same_cells [?d'] [d]" by (simp add: same_cells_Cons)
    ultimately show ?thesis unfolding True by (intro exI [of _ "[?d']"]) simp
  next
    case False
    let ?h' = "h[fst (last pre) := Some ((snd (last pre))\<lparr>next := next (snd c)\<rparr>), fst c := None]"
    from Cons.IH [OF rest False] Cons.prems obtain pre' where
      pre': "path ?h' (next (snd d)) (pre' @ post)" and same: "same_cells pre' pre"
      by auto
    have "fst (last pre) \<in> fst ` set pre" using False by simp
    moreover have "fst d \<notin> fst ` set pre" "fst c \<noteq> fst d" using Cons.prems(3) by auto
    ultimately have ne: "fst (last pre) \<noteq> fst d" "fst c \<noteq> fst d" by metis+
    have "deref ?h' (fst d) = Some (snd d)"
      using d lt ne by (simp add: deref_def)
    then have "path ?h' p ((d # pre') @ post)"
      using p pre' by simp
    moreover have "same_cells (d # pre') (d # pre)"
      using same by (simp add: same_cells_Cons)
    ultimately show ?thesis using False by (metis last_ConsR)
  qed
qed

section \<open>The operations keep tables well-formed\<close>

lemma home_less: "tableSize t \<noteq> 0 \<Longrightarrow> length (nodes t) = unat (tableSize t) \<Longrightarrow> home t s < length (nodes t)"
  by (simp add: home_def unat_mod unat_gt_0)

lemma bucket_inv_length:
  assumes "bucket_inv t i cs"
  shows "length cs < fuel t"
proof -
  have "path (heap t) (next (nodes t ! i)) cs" "distinct (map fst cs)"
    using assms by (simp_all add: bucket_inv_def)
  then have "length cs \<le> length (heap t)" by (rule path_length)
  then show ?thesis by (simp add: fuel_def)
qed

lemma bucket_inv_chain:
  assumes "bucket_inv t i cs"
  shows "chain t i = cs"
proof -
  have "path (heap t) (next (nodes t ! i)) cs"
    using assms by (simp add: bucket_inv_def)
  then show ?thesis
    unfolding chain_def using bucket_inv_length [OF assms] by (rule chain_cells_path)
qed

lemma of_nat_index_inj:
  assumes "i < unat (sz :: 32 word)" "j < unat sz" "(of_nat i :: 32 word) = of_nat j"
  shows "i = j"
proof -
  have "unat sz < 2 ^ LENGTH(32)" by (rule unsigned_less)
  then have "i < 2 ^ LENGTH(32)" "j < 2 ^ LENGTH(32)"
    using assms(1,2) by simp_all
  then have "unat (of_nat i :: 32 word) = i" "unat (of_nat j :: 32 word) = j"
    by (simp_all only: of_nat_inverse [OF refl])
  with assms(3) show ?thesis by metis
qed

lemma chains_disjoint:
  assumes "bucket_inv t i cs" "bucket_inv t j ds" "i \<noteq> j"
    and "i < unat (tableSize t)" "j < unat (tableSize t)"
  shows "fst ` set cs \<inter> fst ` set ds = {}"
proof (rule ccontr)
  assume "fst ` set cs \<inter> fst ` set ds \<noteq> {}"
  then obtain c d where c: "c \<in> set cs" and d: "d \<in> set ds" and eq: "fst c = fst d"
    by auto
  have "deref (heap t) (fst c) = Some (snd c)" "deref (heap t) (fst d) = Some (snd d)"
    using assms(1,2) c d path_in_heap unfolding bucket_inv_def by blast+
  with eq have "snd c = snd d" by simp
  moreover have "key (snd c) = of_nat i" "key (snd d) = of_nat j"
    using assms(1,2) c d unfolding bucket_inv_def by blast+
  ultimately have "(of_nat i :: 32 word) = of_nat j" by simp
  with assms(3-5) show False using of_nat_index_inj by blast
qed

text \<open>
  A step that keeps the size, changes one bucket into a well-formed one and leaves the
  paths of the others alone keeps the table well-formed.
\<close>

lemma inv_step:
  assumes "inv t"
    and "tableSize t' = tableSize t" and "length (nodes t') = length (nodes t)"
    and "k < length (nodes t)"
    and "bucket_inv t' k cs'"
    and "\<And>i. i < length (nodes t) \<Longrightarrow> i \<noteq> k \<Longrightarrow>
           nodes t' ! i = nodes t ! i \<and> path (heap t') (next (nodes t ! i)) (chain t i)"
  shows "inv t' \<and> chain t' k = cs' \<and> (\<forall>i < length (nodes t). i \<noteq> k \<longrightarrow> chain t' i = chain t i)"
proof -
  have other: "bucket_inv t' i (chain t i)" if "i < length (nodes t)" "i \<noteq> k" for i
  proof -
    have "bucket_inv t i (chain t i)" using assms(1) that by (simp add: inv_def)
    then show ?thesis
      using assms(6) [OF that] assms(2) by (simp add: bucket_inv_def home_def)
  qed
  have ch: "chain t' i = chain t i" if "i < length (nodes t)" "i \<noteq> k" for i
    using other [OF that] by (rule bucket_inv_chain)
  have "chain t' k = cs'" using assms(5) by (rule bucket_inv_chain)
  moreover have "inv t'"
    unfolding inv_def
  proof (intro conjI allI impI)
    show "length (nodes t') = unat (tableSize t')"
      using assms(1-3) by (simp add: inv_def)
    fix i assume "i < length (nodes t')"
    then have i: "i < length (nodes t)" using assms(3) by simp
    show "bucket_inv t' i (chain t' i)"
    proof (cases "i = k")
      case True
      then show ?thesis using assms(5) \<open>chain t' k = cs'\<close> by simp
    next
      case False
      then show ?thesis using other [OF i False] ch [OF i False] by simp
    qed
  qed
  ultimately show ?thesis using ch by blast
qed

lemma mod_neq_UINT_MAX: "sz \<noteq> 0 \<Longrightarrow> x mod sz \<noteq> UINT_MAX" for sz :: "32 word"
proof
  assume sz: "sz \<noteq> 0" and eq: "x mod sz = UINT_MAX"
  have "x mod sz < sz" using sz by (simp add: word_mod_less_divisor word_greater_zero_iff)
  then have "UINT_MAX < sz" using eq by simp
  then show False by (simp add: UINT_MAX_def)
qed

lemma inv_home_less: "inv t \<Longrightarrow> tableSize t \<noteq> 0 \<Longrightarrow> home t s < length (nodes t)"
  using home_less [of t s] by (simp add: inv_def)

lemma bucket_inv_length_le:
  assumes "bucket_inv t i cs"
  shows "length cs \<le> length (heap t)"
proof -
  have "path (heap t) (next (nodes t ! i)) cs" "distinct (map fst cs)"
    using assms by (simp_all add: bucket_inv_def)
  then show ?thesis by (rule path_length)
qed

lemma entries_ids:
  "bidId ` set (entries t i) =
     (if key (nodes t ! i) = UINT_MAX then {}
      else insert (bidId (bid (nodes t ! i))) ((\<lambda>c. bidId (bid (snd c))) ` set (chain t i)))"
  by (simp add: entries_def image_image)

lemma walk_bucket_head:
  "i < length (nodes t) \<Longrightarrow> bidId (bid (nodes t ! i)) = s \<Longrightarrow>
   walk (fuel t) t s None (Some (Slot i)) = Inr (None, Some (Slot i))"
  by (simp add: fuel_def load_Slot)

lemma walk_bucket_none:
  assumes "i < length (nodes t)" "bucket_inv t i cs" "bidId (bid (nodes t ! i)) \<noteq> s"
    and "\<forall>c \<in> set cs. bidId (bid (snd c)) \<noteq> s"
  shows "walk (fuel t) t s None (Some (Slot i)) = Inr (last_ptr (Some (Slot i)) cs, None)"
proof -
  have p: "path (heap t) (next (nodes t ! i)) cs" using assms(2) by (simp add: bucket_inv_def)
  have "length cs < Suc (length (heap t))"
    using bucket_inv_length_le [OF assms(2)] by simp
  from walk_none [OF p this assms(4)]
  show ?thesis using assms(1,3) by (simp add: fuel_def load_Slot)
qed

lemma walk_bucket_found:
  assumes "i < length (nodes t)" "bucket_inv t i (pre @ c # post)" "bidId (bid (nodes t ! i)) \<noteq> s"
    and "\<forall>c' \<in> set pre. bidId (bid (snd c')) \<noteq> s" "bidId (bid (snd c)) = s"
  shows "walk (fuel t) t s None (Some (Slot i)) = Inr (last_ptr (Some (Slot i)) pre, Some (Cell (fst c)))"
proof -
  have p: "path (heap t) (next (nodes t ! i)) (pre @ c # post)"
    using assms(2) by (simp add: bucket_inv_def)
  have "length (pre @ c # post) < Suc (length (heap t))"
    using bucket_inv_length_le [OF assms(2)] by simp
  from walk_found [OF p this assms(4,5)]
  show ?thesis using assms(1,3) by (simp add: fuel_def load_Slot)
qed

lemma last_ptr_tail: "last_ptr (Some (Slot i)) cs = Some (tail_ptr i cs)"
  by (simp add: last_ptr_def tail_ptr_def)

text \<open>The three ways \<open>Insert\<close> returns, on a well-formed table.\<close>

lemma Insert_empty:
  assumes "inv t" "tableSize t \<noteq> 0" "key (nodes t ! home t (bidId b)) = UINT_MAX"
  shows "Insert t b = Inr (t\<lparr>nodes := (nodes t)[home t (bidId b) :=
           (nodes t ! home t (bidId b))\<lparr>key := atoi (bidId b) mod tableSize t, bid := b, next := None\<rparr>]\<rparr>)"
proof -
  have "home t (bidId b) < length (nodes t)"
    using assms(1,2) by (rule inv_home_less)
  then show ?thesis
    using assms(2,3) by (simp add: Insert_def hash_def nodes_at_def load_def store_def home_def)
qed

lemma Insert_present:
  assumes "inv t" "tableSize t \<noteq> 0" "bidId b \<in> bidId ` set (entries t (home t (bidId b)))"
  shows "Insert t b = Inr t"
proof -
  let ?k = "home t (bidId b)"
  have k: "?k < length (nodes t)"
    using assms(1,2) by (rule inv_home_less)
  have B: "bucket_inv t ?k (chain t ?k)" using assms(1) k by (simp add: inv_def)
  have occ: "key (nodes t ! ?k) \<noteq> UINT_MAX"
    using assms(3) by (auto simp: entries_def split: if_splits)
  have "\<exists>prev found. walk (fuel t) t (bidId b) None (Some (Slot ?k)) = Inr (prev, Some found)"
  proof (cases "bidId (bid (nodes t ! ?k)) = bidId b")
    case True
    then show ?thesis using walk_bucket_head [OF k True] by blast
  next
    case False
    then have "\<exists>c \<in> set (chain t ?k). bidId (bid (snd c)) = bidId b"
      using assms(3) occ unfolding entries_ids by force
    from split_first [OF this] obtain pre c post where
      sp: "chain t ?k = pre @ c # post" "bidId (bid (snd c)) = bidId b"
          "\<forall>c' \<in> set pre. bidId (bid (snd c')) \<noteq> bidId b"
      by blast
    have "bucket_inv t ?k (pre @ c # post)" using B sp(1) by simp
    from walk_bucket_found [OF k this False sp(3,2)] show ?thesis by blast
  qed
  then obtain prev found where
    "walk (fuel t) t (bidId b) None (Some (Slot ?k)) = Inr (prev, Some found)" by blast
  then show ?thesis
    using k assms(2) occ by (simp add: Insert_def hash_def nodes_at_def load_def home_def)
qed

lemma Insert_append:
  assumes "inv t" "tableSize t \<noteq> 0" "key (nodes t ! home t (bidId b)) \<noteq> UINT_MAX"
    and "bidId b \<notin> bidId ` set (entries t (home t (bidId b)))"
  shows "Insert t b =
           store (t\<lparr>heap := heap t @ [Some (Node_new b (atoi (bidId b) mod tableSize t))]\<rparr>)
             (tail_ptr (home t (bidId b)) (chain t (home t (bidId b))))
             (\<lambda>m. m\<lparr>next := Some (length (heap t))\<rparr>)"
proof -
  let ?k = "home t (bidId b)"
  have k: "?k < length (nodes t)"
    using assms(1,2) by (rule inv_home_less)
  have B: "bucket_inv t ?k (chain t ?k)" using assms(1) k by (simp add: inv_def)
  have hd: "bidId (bid (nodes t ! ?k)) \<noteq> bidId b"
    and tl: "\<forall>c \<in> set (chain t ?k). bidId (bid (snd c)) \<noteq> bidId b"
    using assms(3,4) unfolding entries_ids by force+
  have w: "walk (fuel t) t (bidId b) None (Some (Slot ?k))
             = Inr (last_ptr (Some (Slot ?k)) (chain t ?k), None)"
    by (rule walk_bucket_none [OF k B hd tl])
  show ?thesis
    using k assms(2,3) w
    by (simp add: Insert_def hash_def nodes_at_def load_def home_def alloc_def last_ptr_tail)
qed

lemma same_cells_all:
  "same_cells cs' cs \<Longrightarrow> \<forall>c \<in> set cs. Q (bid (snd c)) (key (snd c)) \<Longrightarrow>
   \<forall>c \<in> set cs'. Q (bid (snd c)) (key (snd c))"
proof (induction cs' arbitrary: cs)
  case Nil
  then show ?case by simp
next
  case (Cons c' cs')
  then obtain d ds where cs: "cs = d # ds"
    using same_cells_length [OF Cons.prems(1)] by (cases cs) auto
  with Cons.prems have "same_cells cs' ds" "bid (snd c') = bid (snd d)" "key (snd c') = key (snd d)"
    by (simp_all add: same_cells_Cons)
  with Cons.IH [of ds] Cons.prems(2) cs show ?case by simp
qed

lemma entries_same:
  "chain t' i = chain t i \<Longrightarrow> nodes t' ! i = nodes t ! i \<Longrightarrow> entries t' i = entries t i"
  by (simp add: entries_def)

lemma Node_new_simps [simp]:
  "bid (Node_new b k) = b" "key (Node_new b k) = k" "next (Node_new b k) = None"
  by (simp_all add: Node_new_def Node_default_def)

lemma Insert_empty_step:
  assumes "inv t" "tableSize t \<noteq> 0" "key (nodes t ! home t (bidId b)) = UINT_MAX"
  obtains t' where "Insert t b = Inr t'" "inv t'" "tableSize t' = tableSize t"
    "length (nodes t') = length (nodes t)"
    "entries t' (home t (bidId b)) = entries t (home t (bidId b)) @ [b]"
    "\<forall>i < length (nodes t). i \<noteq> home t (bidId b) \<longrightarrow>
       nodes t' ! i = nodes t ! i \<and> chain t' i = chain t i"
proof -
  let ?k = "home t (bidId b)"
  let ?n = "(nodes t ! ?k)\<lparr>key := atoi (bidId b) mod tableSize t, bid := b, next := None\<rparr>"
  let ?t' = "t\<lparr>nodes := (nodes t)[?k := ?n]\<rparr>"
  have k: "?k < length (nodes t)" using assms(1,2) by (rule inv_home_less)
  have ins: "Insert t b = Inr ?t'" by (rule Insert_empty [OF assms])
  have occ: "key ?n \<noteq> UINT_MAX" using assms(2) by (simp add: mod_neq_UINT_MAX)
  have nk: "nodes ?t' ! ?k = ?n" using k by simp
  have B: "bucket_inv ?t' ?k []"
    unfolding bucket_inv_def nk using occ by (simp add: home_def)
  have other: "nodes ?t' ! i = nodes t ! i \<and> path (heap ?t') (next (nodes t ! i)) (chain t i)"
    if "i < length (nodes t)" "i \<noteq> ?k" for i
  proof -
    have "bucket_inv t i (chain t i)" using assms(1) that by (simp add: inv_def)
    then show ?thesis using that by (simp add: bucket_inv_def)
  qed
  have st: "inv ?t' \<and> chain ?t' ?k = [] \<and> (\<forall>i < length (nodes t). i \<noteq> ?k \<longrightarrow> chain ?t' i = chain t i)"
    by (rule inv_step [OF assms(1) _ _ k B other]) simp_all
  have "entries ?t' ?k = [b]"
    using st occ nk by (simp add: entries_def)
  moreover have "entries t ?k = []" using assms(3) by (simp add: entries_def)
  ultimately have "entries ?t' ?k = entries t ?k @ [b]" by simp
  moreover have "\<forall>i < length (nodes t). i \<noteq> ?k \<longrightarrow> nodes ?t' ! i = nodes t ! i \<and> chain ?t' i = chain t i"
    using st other by blast
  ultimately show ?thesis using ins st by (intro that [of ?t']) simp_all
qed

lemma Insert_append_step:
  assumes "inv t" "tableSize t \<noteq> 0" "key (nodes t ! home t (bidId b)) \<noteq> UINT_MAX"
    and "bidId b \<notin> bidId ` set (entries t (home t (bidId b)))"
  obtains t' where "Insert t b = Inr t'" "inv t'" "tableSize t' = tableSize t"
    "length (nodes t') = length (nodes t)"
    "entries t' (home t (bidId b)) = entries t (home t (bidId b)) @ [b]"
    "\<forall>i < length (nodes t). i \<noteq> home t (bidId b) \<longrightarrow>
       nodes t' ! i = nodes t ! i \<and> chain t' i = chain t i"
proof -
  let ?k = "home t (bidId b)"
  let ?cs = "chain t ?k"
  let ?L = "length (heap t)"
  let ?m = "Node_new b (atoi (bidId b) mod tableSize t)"
  let ?t1 = "t\<lparr>heap := heap t @ [Some ?m]\<rparr>"
  have k: "?k < length (nodes t)" using assms(1,2) by (rule inv_home_less)
  have len: "length (nodes t) = unat (tableSize t)" using assms(1) by (simp add: inv_def)
  have B: "bucket_inv t ?k ?cs" using assms(1) k by (simp add: inv_def)
  have p: "path (heap t) (next (nodes t ! ?k)) ?cs" and dist: "distinct (map fst ?cs)"
    and cells: "\<forall>c \<in> set ?cs. key (snd c) = of_nat ?k \<and> home t (bidId (bid (snd c))) = ?k"
    and hd_home: "home t (bidId (bid (nodes t ! ?k))) = ?k"
    and ids: "distinct (map bidId (bid (nodes t ! ?k) # map (\<lambda>c. bid (snd c)) ?cs))"
    using B assms(3) by (simp_all add: bucket_inv_def)
  have hd: "bidId (bid (nodes t ! ?k)) \<noteq> bidId b"
    and tl: "bidId b \<notin> (\<lambda>c. bidId (bid (snd c))) ` set ?cs"
    using assms(3,4) unfolding entries_ids by auto
  have ins: "Insert t b = store ?t1 (tail_ptr ?k ?cs) (\<lambda>m. m\<lparr>next := Some ?L\<rparr>)"
    by (rule Insert_append [OF assms])
  have keym: "key ?m = of_nat ?k" by (simp add: home_def)
  have fresh: "?L \<notin> fst ` set ?cs" using path_in_heap [OF p] by fastforce
  have ent: "entries t ?k = bid (nodes t ! ?k) # map (\<lambda>c. bid (snd c)) ?cs"
    using assms(3) by (simp add: entries_def)
  have others: "bucket_inv t i (chain t i)" if "i < length (nodes t)" for i
    using assms(1) that by (simp add: inv_def)
  show ?thesis
  proof (cases "?cs = []")
    case True
    let ?n = "(nodes t ! ?k)\<lparr>next := Some ?L\<rparr>"
    let ?t' = "t\<lparr>heap := heap t @ [Some ?m], nodes := (nodes t)[?k := ?n]\<rparr>"
    have res: "Insert t b = Inr ?t'"
      using ins True k by (simp add: tail_ptr_def store_def)
    have nk: "nodes ?t' ! ?k = ?n" using k by simp
    have B': "bucket_inv ?t' ?k [(?L, ?m)]"
      unfolding bucket_inv_def nk
      using assms(3) hd hd_home keym by (simp add: deref_def home_def)
    have other: "nodes ?t' ! i = nodes t ! i \<and> path (heap ?t') (next (nodes t ! i)) (chain t i)"
      if "i < length (nodes t)" "i \<noteq> ?k" for i
    proof -
      have "path (heap t) (next (nodes t ! i)) (chain t i)"
        using others [OF that(1)] by (simp add: bucket_inv_def)
      then show ?thesis using that by (simp add: path_extend)
    qed
    have st: "inv ?t' \<and> chain ?t' ?k = [(?L, ?m)] \<and> (\<forall>i < length (nodes t). i \<noteq> ?k \<longrightarrow> chain ?t' i = chain t i)"
      by (rule inv_step [OF assms(1) _ _ k B' other]) simp_all
    have "entries ?t' ?k = entries t ?k @ [b]"
      using st nk assms(3) ent True by (simp add: entries_def)
    moreover have "\<forall>i < length (nodes t). i \<noteq> ?k \<longrightarrow> nodes ?t' ! i = nodes t ! i \<and> chain ?t' i = chain t i"
      using st other by blast
    ultimately show ?thesis using res st by (intro that [of ?t']) simp_all
  next
    case False
    let ?a = "fst (last ?cs)"
    let ?c = "snd (last ?cs)"
    let ?h' = "(heap t @ [Some ?m])[?a := Some (?c\<lparr>next := Some ?L\<rparr>)]"
    let ?t' = "t\<lparr>heap := ?h'\<rparr>"
    have lastin: "last ?cs \<in> set ?cs" using False by simp
    have da: "deref (heap t) ?a = Some ?c" and alt: "?a < ?L"
      using path_in_heap [OF p lastin] by simp_all
    then have "deref (heap t @ [Some ?m]) ?a = Some ?c"
      by (simp add: deref_def nth_append)
    then have res: "Insert t b = Inr ?t'"
      using ins False by (simp add: tail_ptr_def store_def)
    from path_snoc [OF p False dist, of ?m] obtain cs' where
      p': "path ?h' (next (nodes t ! ?k)) (cs' @ [(?L, ?m)])" and same: "same_cells cs' ?cs"
      by auto
    have fst': "map fst cs' = map fst ?cs" and bid': "map (\<lambda>c. bid (snd c)) cs' = map (\<lambda>c. bid (snd c)) ?cs"
      using same by (rule same_cells_fst, rule same_cells_bid)
    have cells': "\<forall>c \<in> set cs'. key (snd c) = of_nat ?k \<and> home t (bidId (bid (snd c))) = ?k"
      using same_cells_all [OF same, of "\<lambda>b k. k = of_nat ?k \<and> home t (bidId b) = ?k"] cells by simp
    have "set (map fst cs') = set (map fst ?cs)" using fst' by simp
    then have fresh': "?L \<notin> fst ` set cs'" using fresh by simp
    have ids': "map bidId (map (\<lambda>c. bid (snd c)) cs') = map bidId (map (\<lambda>c. bid (snd c)) ?cs)"
      using bid' by simp
    have B': "bucket_inv ?t' ?k (cs' @ [(?L, ?m)])"
      unfolding bucket_inv_def
    proof (intro conjI impI)
      show "path (heap ?t') (next (nodes ?t' ! ?k)) (cs' @ [(?L, ?m)])" using p' by simp
      show "distinct (map fst (cs' @ [(?L, ?m)]))" using dist fst' fresh fresh' by simp
      show "\<forall>c \<in> set (cs' @ [(?L, ?m)]). key (snd c) = of_nat ?k \<and> home ?t' (bidId (bid (snd c))) = ?k"
        using cells' keym by (simp add: home_def)
      show "next (nodes ?t' ! ?k) = None" if "key (nodes ?t' ! ?k) = UINT_MAX"
        using that assms(3) by simp
      show "home ?t' (bidId (bid (nodes ?t' ! ?k))) = ?k" using hd_home by (simp add: home_def)
      have "set (map bidId (map (\<lambda>c. bid (snd c)) cs')) = set (map bidId (map (\<lambda>c. bid (snd c)) ?cs))"
        using ids' by simp
      then have "bidId b \<notin> set (map bidId (map (\<lambda>c. bid (snd c)) cs'))"
        using tl by (simp add: image_image)
      then show "distinct (map bidId (bid (nodes ?t' ! ?k) # map (\<lambda>c. bid (snd c)) (cs' @ [(?L, ?m)])))"
        using ids ids' hd tl by (simp add: comp_def)
    qed
    have other: "nodes ?t' ! i = nodes t ! i \<and> path (heap ?t') (next (nodes t ! i)) (chain t i)"
      if "i < length (nodes t)" "i \<noteq> ?k" for i
    proof -
      have Bi: "bucket_inv t i (chain t i)" by (rule others [OF that(1)])
      then have pi: "path (heap t) (next (nodes t ! i)) (chain t i)" by (simp add: bucket_inv_def)
      have "fst ` set (chain t i) \<inter> fst ` set ?cs = {}"
        using chains_disjoint [OF Bi B that(2)] that(1) k len by simp
      then have "?a \<notin> fst ` set (chain t i)" using lastin by blast
      then have "path ?h' (next (nodes t ! i)) (chain t i)"
        using path_extend [OF pi] by (simp add: path_update)
      then show ?thesis by simp
    qed
    have st: "inv ?t' \<and> chain ?t' ?k = cs' @ [(?L, ?m)] \<and> (\<forall>i < length (nodes t). i \<noteq> ?k \<longrightarrow> chain ?t' i = chain t i)"
      by (rule inv_step [OF assms(1) _ _ k B' other]) simp_all
    have "entries ?t' ?k = entries t ?k @ [b]"
      using st assms(3) ent bid' by (simp add: entries_def)
    moreover have "\<forall>i < length (nodes t). i \<noteq> ?k \<longrightarrow> nodes ?t' ! i = nodes t ! i \<and> chain ?t' i = chain t i"
      using st other by blast
    ultimately show ?thesis using res st by (intro that [of ?t']) simp_all
  qed
qed

lemma Insert_step:
  assumes "inv t" "tableSize t \<noteq> 0"
  shows "\<exists>t'. Insert t b = Inr t' \<and> inv t' \<and> tableSize t' = tableSize t \<and>
           length (nodes t') = length (nodes t) \<and>
           (\<forall>i < length (nodes t). entries t' i =
              (if i = home t (bidId b) \<and> bidId b \<notin> bidId ` set (entries t i)
               then entries t i @ [b] else entries t i)) \<and>
           (\<forall>i < length (nodes t). i \<noteq> home t (bidId b) \<longrightarrow>
              nodes t' ! i = nodes t ! i \<and> chain t' i = chain t i)"
proof -
  let ?k = "home t (bidId b)"
  consider (present) "bidId b \<in> bidId ` set (entries t ?k)"
    | (empty) "bidId b \<notin> bidId ` set (entries t ?k)" "key (nodes t ! ?k) = UINT_MAX"
    | (append) "bidId b \<notin> bidId ` set (entries t ?k)" "key (nodes t ! ?k) \<noteq> UINT_MAX"
    by blast
  then show ?thesis
  proof cases
    case present
    have "Insert t b = Inr t" by (rule Insert_present [OF assms present])
    moreover have "\<forall>i < length (nodes t). entries t i =
              (if i = ?k \<and> bidId b \<notin> bidId ` set (entries t i)
               then entries t i @ [b] else entries t i)"
      using present by simp
    ultimately show ?thesis using assms(1) by (intro exI [of _ t] conjI) simp_all
  next
    case empty
    obtain t' where
      t': "Insert t b = Inr t'" "inv t'" "tableSize t' = tableSize t"
        "length (nodes t') = length (nodes t)" "entries t' ?k = entries t ?k @ [b]"
        "\<forall>i < length (nodes t). i \<noteq> ?k \<longrightarrow> nodes t' ! i = nodes t ! i \<and> chain t' i = chain t i"
      by (rule Insert_empty_step [OF assms empty(2)])
    have "entries t' i = (if i = ?k \<and> bidId b \<notin> bidId ` set (entries t i)
               then entries t i @ [b] else entries t i)" if "i < length (nodes t)" for i
    proof (cases "i = ?k")
      case True
      show ?thesis unfolding True using empty(1) by (simp only: t'(5) simp_thms if_True)
    next
      case False
      then have "chain t' i = chain t i" "nodes t' ! i = nodes t ! i" using t'(6) that by simp_all
      then have "entries t' i = entries t i" by (rule entries_same)
      then show ?thesis using False by simp
    qed
    then have "\<forall>i < length (nodes t). entries t' i =
              (if i = ?k \<and> bidId b \<notin> bidId ` set (entries t i)
               then entries t i @ [b] else entries t i)"
      by simp
    with t'(1-4,6) show ?thesis by (intro exI [of _ t'] conjI) assumption+
  next
    case append
    obtain t' where
      t': "Insert t b = Inr t'" "inv t'" "tableSize t' = tableSize t"
        "length (nodes t') = length (nodes t)" "entries t' ?k = entries t ?k @ [b]"
        "\<forall>i < length (nodes t). i \<noteq> ?k \<longrightarrow> nodes t' ! i = nodes t ! i \<and> chain t' i = chain t i"
      by (rule Insert_append_step [OF assms append(2,1)])
    have "entries t' i = (if i = ?k \<and> bidId b \<notin> bidId ` set (entries t i)
               then entries t i @ [b] else entries t i)" if "i < length (nodes t)" for i
    proof (cases "i = ?k")
      case True
      show ?thesis unfolding True using append(1) by (simp only: t'(5) simp_thms if_True)
    next
      case False
      then have "chain t' i = chain t i" "nodes t' ! i = nodes t ! i" using t'(6) that by simp_all
      then have "entries t' i = entries t i" by (rule entries_same)
      then show ?thesis using False by simp
    qed
    then have "\<forall>i < length (nodes t). entries t' i =
              (if i = ?k \<and> bidId b \<notin> bidId ` set (entries t i)
               then entries t i @ [b] else entries t i)"
      by simp
    with t'(1-4,6) show ?thesis by (intro exI [of _ t'] conjI) assumption+
  qed
qed

text \<open>The ways \<open>Remove\<close> returns, on a well-formed table.\<close>

lemma Remove_absent:
  assumes "inv t" "tableSize t \<noteq> 0" "bidId (bid (nodes t ! home t s)) \<noteq> s"
    and "\<forall>c \<in> set (chain t (home t s)). bidId (bid (snd c)) \<noteq> s"
  shows "Remove t s = Inr t"
proof -
  let ?k = "home t s"
  have k: "?k < length (nodes t)" using assms(1,2) by (rule inv_home_less)
  have B: "bucket_inv t ?k (chain t ?k)" using assms(1) k by (simp add: inv_def)
  have "walk (fuel t) t s None (Some (Slot ?k)) = Inr (last_ptr (Some (Slot ?k)) (chain t ?k), None)"
    by (rule walk_bucket_none [OF k B assms(3,4)])
  then show ?thesis
    using k assms(2) by (simp add: Remove_def hash_def nodes_at_def home_def last_ptr_tail)
qed

lemma Remove_head:
  assumes "inv t" "tableSize t \<noteq> 0" "bidId (bid (nodes t ! home t s)) = s"
  shows "Remove t s = Inr (t\<lparr>nodes := (nodes t)[home t s :=
           (nodes t ! home t s)\<lparr>key := UINT_MAX, next := None\<rparr>]\<rparr>)"
proof -
  let ?k = "home t s"
  have k: "?k < length (nodes t)" using assms(1,2) by (rule inv_home_less)
  have "walk (fuel t) t s None (Some (Slot ?k)) = Inr (None, Some (Slot ?k))"
    by (rule walk_bucket_head [OF k assms(3)])
  then show ?thesis
    using k assms(2) by (simp add: Remove_def hash_def nodes_at_def home_def store_def)
qed

lemma Remove_cell:
  assumes "inv t" "tableSize t \<noteq> 0" "bidId (bid (nodes t ! home t s)) \<noteq> s"
    and "chain t (home t s) = pre @ c # post"
    and "\<forall>c' \<in> set pre. bidId (bid (snd c')) \<noteq> s" "bidId (bid (snd c)) = s"
  shows "Remove t s =
           (case store t (tail_ptr (home t s) pre) (\<lambda>m. m\<lparr>next := next (snd c)\<rparr>) of
              Inl e \<Rightarrow> Inl e
            | Inr t1 \<Rightarrow> free t1 (Cell (fst c)))"
proof -
  let ?k = "home t s"
  have k: "?k < length (nodes t)" using assms(1,2) by (rule inv_home_less)
  have "bucket_inv t ?k (chain t ?k)" using assms(1) k by (simp add: inv_def)
  then have B: "bucket_inv t ?k (pre @ c # post)" using assms(4) by simp
  then have "path (heap t) (next (nodes t ! ?k)) (pre @ c # post)" by (simp add: bucket_inv_def)
  from path_in_heap [OF this, of c] have d: "deref (heap t) (fst c) = Some (snd c)" by simp
  have "walk (fuel t) t s None (Some (Slot ?k)) = Inr (Some (tail_ptr ?k pre), Some (Cell (fst c)))"
    using walk_bucket_found [OF k B assms(3,5,6)] by (simp add: last_ptr_tail)
  then show ?thesis
    using k assms(2) d by (simp add: Remove_def hash_def nodes_at_def home_def load_def)
qed

lemma Remove_head_step:
  assumes "inv t" "tableSize t \<noteq> 0" "bidId (bid (nodes t ! home t s)) = s"
  obtains t' where "Remove t s = Inr t'" "inv t'" "tableSize t' = tableSize t"
    "length (nodes t') = length (nodes t)"
    "entries t' (home t s) = []"
    "\<forall>i < length (nodes t). i \<noteq> home t s \<longrightarrow>
       nodes t' ! i = nodes t ! i \<and> chain t' i = chain t i"
    "key (nodes t ! home t s) = UINT_MAX \<longrightarrow> t' = t"
proof -
  let ?k = "home t s"
  let ?n = "(nodes t ! ?k)\<lparr>key := UINT_MAX, next := None\<rparr>"
  let ?t' = "t\<lparr>nodes := (nodes t)[?k := ?n]\<rparr>"
  have k: "?k < length (nodes t)" using assms(1,2) by (rule inv_home_less)
  have res: "Remove t s = Inr ?t'" by (rule Remove_head [OF assms])
  have nk: "nodes ?t' ! ?k = ?n" using k by simp
  have B: "bucket_inv ?t' ?k []"
    unfolding bucket_inv_def nk by simp
  have other: "nodes ?t' ! i = nodes t ! i \<and> path (heap ?t') (next (nodes t ! i)) (chain t i)"
    if "i < length (nodes t)" "i \<noteq> ?k" for i
  proof -
    have "bucket_inv t i (chain t i)" using assms(1) that by (simp add: inv_def)
    then show ?thesis using that by (simp add: bucket_inv_def)
  qed
  have st: "inv ?t' \<and> chain ?t' ?k = [] \<and> (\<forall>i < length (nodes t). i \<noteq> ?k \<longrightarrow> chain ?t' i = chain t i)"
    by (rule inv_step [OF assms(1) _ _ k B other]) simp_all
  have e: "entries ?t' ?k = []"
    using nk by (simp add: entries_def)
  have o: "\<forall>i < length (nodes t). i \<noteq> ?k \<longrightarrow> nodes ?t' ! i = nodes t ! i \<and> chain ?t' i = chain t i"
    using st other by blast
  have same: "?t' = t" if "key (nodes t ! ?k) = UINT_MAX"
  proof -
    have "bucket_inv t ?k (chain t ?k)" using assms(1) k by (simp add: inv_def)
    then have "next (nodes t ! ?k) = None" using that by (simp add: bucket_inv_def)
    then have "?n = nodes t ! ?k" using that by simp
    then have "(nodes t)[?k := ?n] = nodes t" by (simp only: list_update_id)
    then show ?thesis by simp
  qed
  show ?thesis
    using res st e o same by (intro that [of ?t']) simp_all
qed

lemma Remove_unlink:
  assumes "inv t" "tableSize t \<noteq> 0" "bidId (bid (nodes t ! home t s)) \<noteq> s"
    and "chain t (home t s) = pre @ c # post"
    and "\<forall>c' \<in> set pre. bidId (bid (snd c')) \<noteq> s" "bidId (bid (snd c)) = s"
  shows "Remove t s = Inr (unlink t (home t s) pre c)"
proof -
  let ?k = "home t s"
  have k: "?k < length (nodes t)" using assms(1,2) by (rule inv_home_less)
  have "bucket_inv t ?k (chain t ?k)" using assms(1) k by (simp add: inv_def)
  then have p: "path (heap t) (next (nodes t ! ?k)) (pre @ c # post)"
    and dist: "distinct (map fst (pre @ c # post))"
    using assms(4) by (simp_all add: bucket_inv_def)
  from path_in_heap [OF p, of c] have d: "deref (heap t) (fst c) = Some (snd c)"
    and lt: "fst c < length (heap t)" by simp_all
  have r: "Remove t s =
           (case store t (tail_ptr ?k pre) (\<lambda>m. m\<lparr>next := next (snd c)\<rparr>) of
              Inl e \<Rightarrow> Inl e
            | Inr t1 \<Rightarrow> free t1 (Cell (fst c)))"
    by (rule Remove_cell [OF assms])
  show ?thesis
  proof (cases "pre = []")
    case True
    then show ?thesis
      using r k d by (simp add: tail_ptr_def store_def free_def unlink_def)
  next
    case False
    then have lastin: "last pre \<in> set (pre @ c # post)" by simp
    from path_in_heap [OF p lastin] have dl: "deref (heap t) (fst (last pre)) = Some (snd (last pre))"
      and ll: "fst (last pre) < length (heap t)" by simp_all
    have "fst (last pre) \<in> fst ` set pre" using False by simp
    moreover have "fst c \<notin> fst ` set pre" using dist by auto
    ultimately have ne: "fst (last pre) \<noteq> fst c" by metis
    have "deref ((heap t)[fst (last pre) := Some ((snd (last pre))\<lparr>next := next (snd c)\<rparr>)]) (fst c) = Some (snd c)"
      using d lt ne by (simp add: deref_def)
    then show ?thesis
      using r False dl by (simp add: tail_ptr_def store_def free_def unlink_def)
  qed
qed

lemma Remove_cell_step:
  assumes "inv t" "tableSize t \<noteq> 0" "bidId (bid (nodes t ! home t s)) \<noteq> s"
    and "chain t (home t s) = pre @ c # post"
    and "\<forall>c' \<in> set pre. bidId (bid (snd c')) \<noteq> s" "bidId (bid (snd c)) = s"
  obtains pre' where "inv (unlink t (home t s) pre c)"
    "chain (unlink t (home t s) pre c) (home t s) = pre' @ post" "same_cells pre' pre"
    "key (nodes t ! home t s) \<noteq> UINT_MAX"
    "\<forall>i < length (nodes t). i \<noteq> home t s \<longrightarrow>
       nodes (unlink t (home t s) pre c) ! i = nodes t ! i \<and>
       chain (unlink t (home t s) pre c) i = chain t i"
proof -
  let ?k = "home t s"
  let ?t' = "unlink t ?k pre c"
  have k: "?k < length (nodes t)" using assms(1,2) by (rule inv_home_less)
  have len: "length (nodes t) = unat (tableSize t)" using assms(1) by (simp add: inv_def)
  have B0: "bucket_inv t ?k (chain t ?k)" using assms(1) k by (simp add: inv_def)
  then have B: "bucket_inv t ?k (pre @ c # post)" using assms(4) by simp
  then have p: "path (heap t) (next (nodes t ! ?k)) (pre @ c # post)"
    and dist: "distinct (map fst (pre @ c # post))"
    and cells: "\<forall>d \<in> set (pre @ c # post). key (snd d) = of_nat ?k \<and> home t (bidId (bid (snd d))) = ?k"
    by (simp_all add: bucket_inv_def)
  have occ: "key (nodes t ! ?k) \<noteq> UINT_MAX"
  proof
    assume "key (nodes t ! ?k) = UINT_MAX"
    then have "next (nodes t ! ?k) = None" using B by (simp add: bucket_inv_def)
    then show False using p by (cases pre) simp_all
  qed
  then have hd_home: "home t (bidId (bid (nodes t ! ?k))) = ?k"
    and ids: "distinct (map bidId (bid (nodes t ! ?k) # map (\<lambda>d. bid (snd d)) (pre @ c # post)))"
    using B by (simp_all add: bucket_inv_def)
  have others: "bucket_inv t i (chain t i)" if "i < length (nodes t)" for i
    using assms(1) that by (simp add: inv_def)
  have notin: "fst d \<notin> fst ` set (chain t i)"
    if "i < length (nodes t)" "i \<noteq> ?k" "d \<in> set (pre @ c # post)" for i d
  proof -
    have "fst ` set (chain t i) \<inter> fst ` set (pre @ c # post) = {}"
      using chains_disjoint [OF others [OF that(1)] B that(2)] that(1) k len by simp
    then show ?thesis using that(3) by blast
  qed
  have sz: "tableSize ?t' = tableSize t" and ln: "length (nodes ?t') = length (nodes t)"
    by (simp_all add: unlink_def)
  show ?thesis
  proof (cases "pre = []")
    case True
    have t': "?t' = t\<lparr>nodes := (nodes t)[?k := (nodes t ! ?k)\<lparr>next := next (snd c)\<rparr>],
                      heap := (heap t)[fst c := None]\<rparr>"
      using True by (simp add: unlink_def)
    have nk: "nodes ?t' ! ?k = (nodes t ! ?k)\<lparr>next := next (snd c)\<rparr>"
      and hp: "heap ?t' = (heap t)[fst c := None]" using k by (simp_all add: t')
    have "path (heap t) (next (snd c)) post" using p True by simp
    moreover have "fst c \<notin> fst ` set post" using dist True by auto
    ultimately have p': "path (heap ?t') (next (snd c)) post"
      unfolding hp by (rule path_update)
    have B': "bucket_inv ?t' ?k post"
      unfolding bucket_inv_def nk
      using p' dist cells occ hd_home ids True sz by (simp add: home_def)
    have other: "nodes ?t' ! i = nodes t ! i \<and> path (heap ?t') (next (nodes t ! i)) (chain t i)"
      if "i < length (nodes t)" "i \<noteq> ?k" for i
    proof -
      have "path (heap t) (next (nodes t ! i)) (chain t i)"
        using others [OF that(1)] by (simp add: bucket_inv_def)
      moreover have "fst c \<notin> fst ` set (chain t i)" using notin [OF that] by simp
      ultimately have "path (heap ?t') (next (nodes t ! i)) (chain t i)"
        unfolding hp by (rule path_update)
      then show ?thesis using that by (simp add: t')
    qed
    have st: "inv ?t' \<and> chain ?t' ?k = post \<and> (\<forall>i < length (nodes t). i \<noteq> ?k \<longrightarrow> chain ?t' i = chain t i)"
      by (rule inv_step [OF assms(1) sz ln k B' other])
    have o: "\<forall>i < length (nodes t). i \<noteq> ?k \<longrightarrow> nodes ?t' ! i = nodes t ! i \<and> chain ?t' i = chain t i"
      using st other by blast
    show ?thesis
      using st o occ True by (intro that [of "[]"]) simp_all
  next
    case False
    let ?a = "fst (last pre)"
    let ?h' = "(heap t)[?a := Some ((snd (last pre))\<lparr>next := next (snd c)\<rparr>), fst c := None]"
    have t': "?t' = t\<lparr>heap := ?h'\<rparr>" using False by (simp add: unlink_def)
    have nds: "nodes ?t' = nodes t" and hp: "heap ?t' = ?h'" by (simp_all add: t')
    from path_splice [OF p False dist] obtain pre' where
      p': "path ?h' (next (nodes t ! ?k)) (pre' @ post)" and same: "same_cells pre' pre"
      by blast
    have fst': "map fst pre' = map fst pre"
      and bid': "map (\<lambda>d. bid (snd d)) pre' = map (\<lambda>d. bid (snd d)) pre"
      using same by (rule same_cells_fst, rule same_cells_bid)
    have "\<forall>d \<in> set pre. key (snd d) = of_nat ?k \<and> home t (bidId (bid (snd d))) = ?k"
      using cells by simp
    then have cells': "\<forall>d \<in> set pre'. key (snd d) = of_nat ?k \<and> home t (bidId (bid (snd d))) = ?k"
      using same_cells_all [OF same, of "\<lambda>b k. k = of_nat ?k \<and> home t (bidId b) = ?k"] by simp
    have B': "bucket_inv ?t' ?k (pre' @ post)"
      unfolding bucket_inv_def nds hp
    proof (intro conjI impI)
      show "path ?h' (next (nodes t ! ?k)) (pre' @ post)" by (rule p')
      show "distinct (map fst (pre' @ post))" using dist fst' by simp
      show "\<forall>d \<in> set (pre' @ post). key (snd d) = of_nat ?k \<and> home ?t' (bidId (bid (snd d))) = ?k"
        using cells' cells sz by (auto simp: home_def)
      show "next (nodes t ! ?k) = None" if "key (nodes t ! ?k) = UINT_MAX"
        using that occ by simp
      show "home ?t' (bidId (bid (nodes t ! ?k))) = ?k" using hd_home sz by (simp add: home_def)
      show "distinct (map bidId (bid (nodes t ! ?k) # map (\<lambda>d. bid (snd d)) (pre' @ post)))"
        using ids bid' by simp
    qed
    have lastin: "last pre \<in> set (pre @ c # post)" using False by simp
    have other: "nodes ?t' ! i = nodes t ! i \<and> path (heap ?t') (next (nodes t ! i)) (chain t i)"
      if "i < length (nodes t)" "i \<noteq> ?k" for i
    proof -
      have "path (heap t) (next (nodes t ! i)) (chain t i)"
        using others [OF that(1)] by (simp add: bucket_inv_def)
      moreover have "fst c \<notin> fst ` set (chain t i)" "?a \<notin> fst ` set (chain t i)"
        using notin [OF that, of c] notin [OF that lastin] by simp_all
      ultimately have "path ?h' (next (nodes t ! i)) (chain t i)"
        by (simp add: path_update)
      then show ?thesis by (simp add: nds hp)
    qed
    have st: "inv ?t' \<and> chain ?t' ?k = pre' @ post \<and> (\<forall>i < length (nodes t). i \<noteq> ?k \<longrightarrow> chain ?t' i = chain t i)"
      by (rule inv_step [OF assms(1) sz ln k B' other])
    have o: "\<forall>i < length (nodes t). i \<noteq> ?k \<longrightarrow> nodes ?t' ! i = nodes t ! i \<and> chain ?t' i = chain t i"
      using st other by blast
    show ?thesis
      using st o occ same by (intro that [of pre']) simp_all
  qed
qed

lemma unlink_released:
  assumes "path (heap t) p (pre @ c # post)"
  shows "deref (heap (unlink t k pre c)) (fst c) = None \<and>
         (\<forall>a. a \<noteq> fst c \<longrightarrow>
            (deref (heap (unlink t k pre c)) a = None) = (deref (heap t) a = None))"
proof (cases "pre = []")
  case True
  then show ?thesis by (auto simp: unlink_def deref_def)
next
  case False
  then have "last pre \<in> set (pre @ c # post)" by simp
  from path_in_heap [OF assms this]
  have "fst (last pre) < length (heap t)" "deref (heap t) (fst (last pre)) = Some (snd (last pre))"
    by simp_all
  then show ?thesis using False by (auto simp: unlink_def deref_def nth_list_update)
qed

lemma filter_absent: "s \<notin> bidId ` set xs \<Longrightarrow> filter (\<lambda>b. bidId b \<noteq> s) xs = xs"
  by (induction xs) auto

lemma filter_unique:
  "distinct (map bidId (xs @ c # ys)) \<Longrightarrow> bidId c = s \<Longrightarrow>
   filter (\<lambda>b. bidId b \<noteq> s) (xs @ c # ys) = xs @ ys"
proof -
  assume d: "distinct (map bidId (xs @ c # ys))" and c: "bidId c = s"
  then have "s \<notin> bidId ` set xs" "s \<notin> bidId ` set ys" by auto
  then have "filter (\<lambda>b. bidId b \<noteq> s) xs = xs" "filter (\<lambda>b. bidId b \<noteq> s) ys = ys"
    by (simp_all add: filter_absent)
  then show ?thesis using c by simp
qed

lemma entries_home:
  assumes "inv t" "i < length (nodes t)" "b \<in> set (entries t i)"
  shows "home t (bidId b) = i"
proof -
  have B: "bucket_inv t i (chain t i)" using assms(1,2) by (simp add: inv_def)
  have occ: "key (nodes t ! i) \<noteq> UINT_MAX"
    using assms(3) by (auto simp: entries_def split: if_splits)
  then have "b = bid (nodes t ! i) \<or> (\<exists>c \<in> set (chain t i). b = bid (snd c))"
    using assms(3) by (auto simp: entries_def)
  then show ?thesis
    using B occ unfolding bucket_inv_def by auto
qed

lemma entries_distinct:
  assumes "inv t" "i < length (nodes t)"
  shows "distinct (map bidId (entries t i))"
proof -
  have B: "bucket_inv t i (chain t i)" using assms(1,2) by (simp add: inv_def)
  then show ?thesis by (simp add: entries_def bucket_inv_def)
qed

lemma Remove_step:
  assumes "inv t" "tableSize t \<noteq> 0"
  obtains t' where "Remove t s = Inr t'" "inv t'" "tableSize t' = tableSize t"
    "length (nodes t') = length (nodes t)"
    "\<forall>i < length (nodes t). entries t' i =
       (if entries t i \<noteq> [] \<and> bidId (hd (entries t i)) = s then []
        else filter (\<lambda>b. bidId b \<noteq> s) (entries t i))"
    "\<forall>i < length (nodes t). i \<noteq> home t s \<longrightarrow>
       nodes t' ! i = nodes t ! i \<and> chain t' i = chain t i"
    "s \<notin> bidId ` set (entries t (home t s)) \<longrightarrow> t' = t"
proof -
  let ?k = "home t s"
  let ?rhs = "\<lambda>i. if entries t i \<noteq> [] \<and> bidId (hd (entries t i)) = s then []
        else filter (\<lambda>b. bidId b \<noteq> s) (entries t i)"
  have k: "?k < length (nodes t)" using assms(1,2) by (rule inv_home_less)
  have away: "?rhs i = entries t i" if "i < length (nodes t)" "i \<noteq> ?k" for i
  proof -
    have "s \<notin> bidId ` set (entries t i)"
      using entries_home [OF assms(1) that(1)] that(2) by auto
    moreover from this have "entries t i \<noteq> [] \<longrightarrow> bidId (hd (entries t i)) \<noteq> s"
      by (cases "entries t i") auto
    ultimately show ?thesis by (auto simp add: filter_absent)
  qed
  have rest: "entries t' i = ?rhs i"
    if "i < length (nodes t)" and "entries t' ?k = ?rhs ?k"
      and "\<forall>i < length (nodes t). i \<noteq> ?k \<longrightarrow> nodes t' ! i = nodes t ! i \<and> chain t' i = chain t i"
    for i t'
  proof (cases "i = ?k")
    case True
    show ?thesis unfolding True by (rule that(2))
  next
    case False
    then have "chain t' i = chain t i" "nodes t' ! i = nodes t ! i" using that by simp_all
    then have "entries t' i = entries t i" by (rule entries_same)
    then show ?thesis using away [OF that(1) False] by simp
  qed
  consider (head) "bidId (bid (nodes t ! ?k)) = s"
    | (cell) "bidId (bid (nodes t ! ?k)) \<noteq> s" "\<exists>c \<in> set (chain t ?k). bidId (bid (snd c)) = s"
    | (absent) "bidId (bid (nodes t ! ?k)) \<noteq> s" "\<forall>c \<in> set (chain t ?k). bidId (bid (snd c)) \<noteq> s"
    by blast
  then show ?thesis
  proof cases
    case head
    obtain t' where t': "Remove t s = Inr t'" "inv t'" "tableSize t' = tableSize t"
      "length (nodes t') = length (nodes t)" "entries t' ?k = []"
      "\<forall>i < length (nodes t). i \<noteq> ?k \<longrightarrow> nodes t' ! i = nodes t ! i \<and> chain t' i = chain t i"
      "key (nodes t ! ?k) = UINT_MAX \<longrightarrow> t' = t"
      by (rule Remove_head_step [OF assms head])
    have "?rhs ?k = []" using head by (simp add: entries_def)
    then have "entries t' ?k = ?rhs ?k" using t'(5) by simp
    then have "entries t' i = ?rhs i" if "i < length (nodes t)" for i
      using rest [OF that _ t'(6)] by simp
    moreover have "s \<notin> bidId ` set (entries t ?k) \<longrightarrow> t' = t"
      using t'(7) head unfolding entries_ids by auto
    ultimately show ?thesis using t'(1-4,6) by (intro that [of t']) simp_all
  next
    case cell
    from split_first [OF cell(2)] obtain pre c post where
      sp: "chain t ?k = pre @ c # post" "bidId (bid (snd c)) = s"
          "\<forall>c' \<in> set pre. bidId (bid (snd c')) \<noteq> s"
      by blast
    let ?t' = "unlink t ?k pre c"
    have res: "Remove t s = Inr ?t'"
      by (rule Remove_unlink [OF assms cell(1) sp(1,3,2)])
    obtain pre' where u: "inv ?t'" "chain ?t' ?k = pre' @ post" "same_cells pre' pre"
      "key (nodes t ! ?k) \<noteq> UINT_MAX"
      "\<forall>i < length (nodes t). i \<noteq> ?k \<longrightarrow> nodes ?t' ! i = nodes t ! i \<and> chain ?t' i = chain t i"
      by (rule Remove_cell_step [OF assms cell(1) sp(1,3,2)])
    have sz: "tableSize ?t' = tableSize t" and ln: "length (nodes ?t') = length (nodes t)"
      by (simp_all add: unlink_def)
    have hdk: "bid (nodes ?t' ! ?k) = bid (nodes t ! ?k)" "key (nodes ?t' ! ?k) = key (nodes t ! ?k)"
      using k by (simp_all add: unlink_def)
    have old: "entries t ?k = (bid (nodes t ! ?k) # map (\<lambda>c. bid (snd c)) pre) @ bid (snd c) # map (\<lambda>c. bid (snd c)) post"
      using u(4) sp(1) by (simp add: entries_def)
    have new: "entries ?t' ?k = (bid (nodes t ! ?k) # map (\<lambda>c. bid (snd c)) pre) @ map (\<lambda>c. bid (snd c)) post"
      using u(2,4) hdk same_cells_bid [OF u(3)] by (simp add: entries_def)
    have "distinct (map bidId (entries t ?k))" by (rule entries_distinct [OF assms(1) k])
    then have "filter (\<lambda>b. bidId b \<noteq> s) (entries t ?k) = entries ?t' ?k"
      unfolding old new using sp(2) by (rule filter_unique)
    moreover have "bidId (hd (entries t ?k)) \<noteq> s" using cell(1) old by simp
    ultimately have "entries ?t' ?k = ?rhs ?k" by simp
    then have "entries ?t' i = ?rhs i" if "i < length (nodes t)" for i
      using rest [OF that _ u(5)] by simp
    moreover have "s \<in> bidId ` set (entries t ?k)" using sp(2) old by simp
    ultimately show ?thesis using res u(1,5) sz ln by (intro that [of ?t']) simp_all
  next
    case absent
    have res: "Remove t s = Inr t" by (rule Remove_absent [OF assms absent])
    have "s \<notin> bidId ` set (entries t ?k)"
      using absent unfolding entries_ids by auto
    moreover from this have "entries t ?k \<noteq> [] \<longrightarrow> bidId (hd (entries t ?k)) \<noteq> s"
      by (cases "entries t ?k") auto
    ultimately have "entries t ?k = ?rhs ?k" by (auto simp add: filter_absent)
    then have "entries t i = ?rhs i" if "i < length (nodes t)" for i
      using rest [OF that, of t] by simp
    then show ?thesis using res assms(1) by (intro that [of t]) simp_all
  qed
qed

lemma inv_new: "inv (HashTable_new sz)"
  by (simp add: inv_def HashTable_new_def bucket_inv_def chain_def fuel_def Node_default_def
      numeral_2_eq_2)

lemma Insert_zero: "tableSize t = 0 \<Longrightarrow> Insert t b = Inl DivisionByZero"
  by (simp add: Insert_def hash_def)

lemma Remove_zero: "tableSize t = 0 \<Longrightarrow> Remove t s = Inl DivisionByZero"
  by (simp add: Remove_def hash_def)

lemma Search_zero: "tableSize t = 0 \<Longrightarrow> Search t s = Inl DivisionByZero"
  by (simp add: Search_def hash_def)

lemma Insert_inv: "inv t \<Longrightarrow> Insert t b = Inr t' \<Longrightarrow> inv t'"
proof -
  assume i: "inv t" and r: "Insert t b = Inr t'"
  then have "tableSize t \<noteq> 0" using Insert_zero [of t b] by auto
  from Insert_step [OF i this, of b] r show ?thesis by auto
qed

lemma Remove_inv: "inv t \<Longrightarrow> Remove t s = Inr t' \<Longrightarrow> inv t'"
proof -
  assume i: "inv t" and r: "Remove t s = Inr t'"
  then have "tableSize t \<noteq> 0" using Remove_zero [of t s] by auto
  from Remove_step [OF i this, of s] r show ?thesis by (metis Inr_inject)
qed

lemma reachable_inv: "reachable t \<Longrightarrow> inv t"
  by (induction rule: reachable.induct) (auto intro: inv_new Insert_inv Remove_inv)

lemma inv_nonzero: "inv t \<Longrightarrow> i < length (nodes t) \<Longrightarrow> tableSize t \<noteq> 0"
  by (auto simp: inv_def)

lemma Insert_entries:
  assumes "inv t" "Insert t b = Inr t'"
  shows "length (nodes t') = length (nodes t) \<and>
         (\<forall>i < length (nodes t). entries t' i =
            (if i = home t (bidId b) \<and> bidId b \<notin> bidId ` set (entries t i)
             then entries t i @ [b] else entries t i))"
proof -
  have "tableSize t \<noteq> 0" using assms(2) Insert_zero [of t b] by auto
  from Insert_step [OF assms(1) this, of b] assms(2) show ?thesis by auto
qed

lemma Remove_entries:
  assumes "inv t" "Remove t s = Inr t'"
  shows "length (nodes t') = length (nodes t) \<and>
         (\<forall>i < length (nodes t). entries t' i =
            (if entries t i \<noteq> [] \<and> bidId (hd (entries t i)) = s then []
             else filter (\<lambda>b. bidId b \<noteq> s) (entries t i)))"
proof -
  have "tableSize t \<noteq> 0" using assms(2) Remove_zero [of t s] by auto
  from Remove_step [OF assms(1) this, of s] assms(2) show ?thesis by (metis Inr_inject)
qed

section \<open>Search and PrintAll on well-formed tables\<close>

text \<open>What \<open>Search\<close> returns on a well-formed table.\<close>

lemma Search_head:
  assumes "inv t" "tableSize t \<noteq> 0" "bidId (bid (nodes t ! home t s)) = s"
  shows "Search t s = Inr (bid (nodes t ! home t s))"
proof -
  have "home t s < length (nodes t)" using assms(1,2) by (rule inv_home_less)
  then show ?thesis
    using assms(2,3) by (simp add: Search_def hash_def nodes_at_def home_def fuel_def load_def)
qed

lemma Search_cell:
  assumes "inv t" "tableSize t \<noteq> 0" "bidId (bid (nodes t ! home t s)) \<noteq> s"
    and "chain t (home t s) = pre @ c # post"
    and "\<forall>c' \<in> set pre. bidId (bid (snd c')) \<noteq> s" "bidId (bid (snd c)) = s"
  shows "Search t s = Inr (bid (snd c))"
proof -
  let ?k = "home t s"
  have k: "?k < length (nodes t)" using assms(1,2) by (rule inv_home_less)
  have "bucket_inv t ?k (chain t ?k)" using assms(1) k by (simp add: inv_def)
  then have B: "bucket_inv t ?k (pre @ c # post)" using assms(4) by simp
  then have p: "path (heap t) (next (nodes t ! ?k)) (pre @ c # post)" by (simp add: bucket_inv_def)
  have "length (pre @ c # post) < Suc (length (heap t))"
    using bucket_inv_length_le [OF B] by simp
  from Search_loop_found [OF p this assms(5,6)]
  show ?thesis
    using k assms(2,3) by (simp add: Search_def hash_def nodes_at_def home_def fuel_def load_def)
qed

lemma Search_absent:
  assumes "inv t" "tableSize t \<noteq> 0" "bidId (bid (nodes t ! home t s)) \<noteq> s"
    and "\<forall>c \<in> set (chain t (home t s)). bidId (bid (snd c)) \<noteq> s"
  shows "Search t s = Inr Bid_default"
proof -
  let ?k = "home t s"
  have k: "?k < length (nodes t)" using assms(1,2) by (rule inv_home_less)
  have B: "bucket_inv t ?k (chain t ?k)" using assms(1) k by (simp add: inv_def)
  then have p: "path (heap t) (next (nodes t ! ?k)) (chain t ?k)" by (simp add: bucket_inv_def)
  have "length (chain t ?k) < Suc (length (heap t))"
    using bucket_inv_length_le [OF B] by simp
  from Search_loop_none [OF p this assms(4)]
  show ?thesis
    using k assms(2,3) by (simp add: Search_def hash_def nodes_at_def home_def fuel_def load_def)
qed

lemma Search_entry:
  assumes "inv t" "i < length (nodes t)" "b \<in> set (entries t i)"
  shows "Search t (bidId b) = Inr b"
proof -
  let ?s = "bidId b"
  have nz: "tableSize t \<noteq> 0" by (rule inv_nonzero [OF assms(1,2)])
  have h: "home t ?s = i" by (rule entries_home [OF assms])
  have occ: "key (nodes t ! i) \<noteq> UINT_MAX"
    using assms(3) by (auto simp: entries_def split: if_splits)
  have d: "distinct (map bidId (entries t i))" by (rule entries_distinct [OF assms(1,2)])
  have e: "entries t i = bid (nodes t ! i) # map (\<lambda>c. bid (snd c)) (chain t i)"
    using occ by (simp add: entries_def)
  show ?thesis
  proof (cases "b = bid (nodes t ! i)")
    case True
    then show ?thesis using Search_head [OF assms(1) nz, of ?s] h by simp
  next
    case False
    then have "\<exists>c \<in> set (chain t i). b = bid (snd c)" using assms(3) e by auto
    then obtain c where c: "c \<in> set (chain t i)" "b = bid (snd c)" by blast
    from split_list [OF c(1)] obtain pre post where sp: "chain t i = pre @ c # post" by blast
    have d': "distinct (bidId (bid (nodes t ! i)) # map (\<lambda>c. bidId (bid (snd c))) (pre @ c # post))"
      using d e sp by (simp add: comp_def)
    then have hd: "bidId (bid (nodes t ! i)) \<noteq> ?s" using c(2) by auto
    have "?s \<notin> (\<lambda>c. bidId (bid (snd c))) ` set pre" using d' c(2) by simp
    then have pre: "\<forall>c' \<in> set pre. bidId (bid (snd c')) \<noteq> ?s" by force
    have "Search t ?s = Inr (bid (snd c))"
    proof (rule Search_cell [OF assms(1) nz])
      show "bidId (bid (nodes t ! home t ?s)) \<noteq> ?s" unfolding h by (rule hd)
      show "chain t (home t ?s) = pre @ c # post" unfolding h by (rule sp)
      show "\<forall>c' \<in> set pre. bidId (bid (snd c')) \<noteq> ?s" by (rule pre)
      show "bidId (bid (snd c)) = ?s" by (simp only: c(2))
    qed
    then show ?thesis by (simp only: c(2))
  qed
qed

lemma contents_entries: "b \<in> set (contents t) \<longleftrightarrow> (\<exists>i < length (nodes t). b \<in> set (entries t i))"
  by (auto simp: contents_def)

lemma Search_contents: "inv t \<Longrightarrow> b \<in> set (contents t) \<Longrightarrow> Search t (bidId b) = Inr b"
  using Search_entry contents_entries by blast

text \<open>What \<open>PrintAll\<close> writes on a well-formed table.\<close>

lemma PrintAll_bucket:
  assumes "inv t" "i < length (nodes t)" "key (nodes t ! i) \<noteq> UINT_MAX"
  shows "PrintAll_chain (fuel t) t (next (nodes t ! i)) = Inr (map (\<lambda>c. Chain_line (bid (snd c))) (chain t i))"
proof -
  have B: "bucket_inv t i (chain t i)" using assms(1,2) by (simp add: inv_def)
  then have p: "path (heap t) (next (nodes t ! i)) (chain t i)" by (simp add: bucket_inv_def)
  show ?thesis by (rule PrintAll_chain_path [OF p bucket_inv_length [OF B]])
qed

lemma PrintAll_from_inv:
  "inv t \<Longrightarrow> \<forall>i \<in> set js. i < length (nodes t) \<Longrightarrow>
   PrintAll_from t js = Inr (concat (map (\<lambda>i. bucket_lines i (entries t i)) js))"
proof (induction js)
  case Nil
  then show ?case by simp
next
  case (Cons j js)
  then have j: "j < length (nodes t)" by simp
  have "PrintAll_from t js = Inr (concat (map (\<lambda>i. bucket_lines i (entries t i)) js))"
    using Cons by simp
  then show ?case
    using j PrintAll_bucket [OF Cons.prems(1) j]
    by (simp add: nodes_at_def load_def entries_def comp_def)
qed

lemma PrintAll_inv:
  "inv t \<Longrightarrow> PrintAll t = Inr (t, concat (map (\<lambda>i. bucket_lines i (entries t i)) [0..<length (nodes t)]))"
  by (simp add: PrintAll_def PrintAll_from_inv)

lemma line_bid_bucket_lines: "map line_bid (bucket_lines i bs) = bs"
  by (cases bs) (simp_all add: comp_def)

lemma PrintAll_contents:
  assumes "inv t"
  shows "\<exists>ls. PrintAll t = Inr (t, ls) \<and> map line_bid ls = contents t"
proof -
  have "map line_bid (concat (map (\<lambda>i. bucket_lines i (entries t i)) js)) = concat (map (entries t) js)"
    for js
    by (induction js) (simp_all add: line_bid_bucket_lines)
  then show ?thesis using PrintAll_inv [OF assms] by (simp add: contents_def)
qed

lemma Search_returns:
  assumes "inv t" "tableSize t \<noteq> 0"
  shows "\<exists>r. Search t s = Inr r"
proof -
  let ?k = "home t s"
  consider (head) "bidId (bid (nodes t ! ?k)) = s"
    | (cell) "bidId (bid (nodes t ! ?k)) \<noteq> s" "\<exists>c \<in> set (chain t ?k). bidId (bid (snd c)) = s"
    | (absent) "bidId (bid (nodes t ! ?k)) \<noteq> s" "\<forall>c \<in> set (chain t ?k). bidId (bid (snd c)) \<noteq> s"
    by blast
  then show ?thesis
  proof cases
    case head
    then show ?thesis using Search_head [OF assms] by blast
  next
    case cell
    from split_first [OF cell(2)] obtain pre c post where
      "chain t ?k = pre @ c # post" "bidId (bid (snd c)) = s"
      "\<forall>c' \<in> set pre. bidId (bid (snd c')) \<noteq> s"
      by blast
    then show ?thesis using Search_cell [OF assms cell(1)] by blast
  next
    case absent
    then show ?thesis using Search_absent [OF assms] by blast
  qed
qed

lemma Search_start:
  "tableSize t \<noteq> 0 \<Longrightarrow> length (nodes t) = unat (tableSize t) \<Longrightarrow>
   Search t s = Search_loop (fuel t) t s (Some (Slot (home t s)))"
  using home_less [of t s] by (simp add: Search_def hash_def nodes_at_def home_def)

section \<open>Sequences of operations\<close>

lemma run_reachable_from: "reachable t \<Longrightarrow> run t ops = Inr t' \<Longrightarrow> reachable t'"
proof (induction ops arbitrary: t)
  case Nil
  then show ?case by simp
next
  case (Cons x ops)
  show ?case
  proof (cases x)
    case (Ins b)
    with Cons.prems(2) obtain t1 where t1: "Insert t b = Inr t1" "run t1 ops = Inr t'"
      by (auto split: sum.splits)
    then have "reachable t1" using Cons.prems(1) reachable_Insert by blast
    then show ?thesis using Cons.IH t1(2) by blast
  next
    case (Rem s)
    with Cons.prems(2) obtain t1 where t1: "Remove t s = Inr t1" "run t1 ops = Inr t'"
      by (auto split: sum.splits)
    then have "reachable t1" using Cons.prems(1) reachable_Remove by blast
    then show ?thesis using Cons.IH t1(2) by blast
  qed
qed

lemma run_reachable: "run (HashTable_new sz) ops = Inr t \<Longrightarrow> reachable t"
  using run_reachable_from [OF reachable_new] .

lemma run_append:
  "run t (ops @ ops') = (case run t ops of Inl e \<Rightarrow> Inl e | Inr t1 \<Rightarrow> run t1 ops')"
proof (induction ops arbitrary: t)
  case Nil
  then show ?case by simp
next
  case (Cons x ops)
  then show ?case by (cases x) (simp_all split: sum.splits)
qed

lemma entries_new: "i < unat sz \<Longrightarrow> entries (HashTable_new sz) i = []"
  by (simp add: entries_def HashTable_new_def Node_default_def)

lemma contents_new: "contents (HashTable_new sz) = []"
  by (simp add: contents_def HashTable_new_def entries_def Node_default_def)

lemma contents_set: "set (contents t) = (\<Union>i < length (nodes t). set (entries t i))"
  by (auto simp: contents_def)

lemma Insert_contents:
  assumes "inv t" "tableSize t \<noteq> 0" "bidId b \<notin> bidId ` set (contents t)"
  obtains t' where "Insert t b = Inr t'" "inv t'" "tableSize t' = tableSize t"
    "set (contents t') = insert b (set (contents t))"
proof -
  let ?k = "home t (bidId b)"
  have k: "?k < length (nodes t)" using assms(1,2) by (rule inv_home_less)
  from Insert_step [OF assms(1,2), of b] obtain t' where
    t': "Insert t b = Inr t'" "inv t'" "tableSize t' = tableSize t"
      "length (nodes t') = length (nodes t)"
      "\<forall>i < length (nodes t). entries t' i =
              (if i = ?k \<and> bidId b \<notin> bidId ` set (entries t i)
               then entries t i @ [b] else entries t i)"
    by blast
  have fresh: "bidId b \<notin> bidId ` set (entries t ?k)"
    using assms(3) k unfolding contents_set by blast
  have "set (entries t' i) = (if i = ?k then insert b (set (entries t i)) else set (entries t i))"
    if "i < length (nodes t)" for i
    using t'(5) that fresh by auto
  then have "(\<Union>i < length (nodes t). set (entries t' i))
       = (\<Union>i < length (nodes t). if i = ?k then insert b (set (entries t i)) else set (entries t i))"
    by simp
  also have "\<dots> = insert b (\<Union>i < length (nodes t). set (entries t i))"
    using k by (auto split: if_splits)
  finally have "set (contents t') = insert b (set (contents t))"
    unfolding contents_set t'(4) .
  then show ?thesis using t'(1-3) by (intro that [of t'])
qed

lemma Insert_all_contents:
  "inv t \<Longrightarrow> tableSize t \<noteq> 0 \<Longrightarrow> distinct (map bidId bs) \<Longrightarrow>
   \<forall>b \<in> set bs. bidId b \<notin> bidId ` set (contents t) \<Longrightarrow>
   \<exists>t'. run t (map Ins bs) = Inr t' \<and> inv t' \<and> set (contents t') = set (contents t) \<union> set bs"
proof (induction bs arbitrary: t)
  case Nil
  then show ?case by simp
next
  case (Cons b bs)
  have "bidId b \<notin> bidId ` set (contents t)" using Cons.prems(4) by simp
  from Insert_contents [OF Cons.prems(1,2) this] obtain t1 where
    t1: "Insert t b = Inr t1" "inv t1" "tableSize t1 = tableSize t"
      "set (contents t1) = insert b (set (contents t))"
    by blast
  have "bidId c \<notin> bidId ` set (contents t1)" if "c \<in> set bs" for c
  proof -
    have "bidId c \<notin> bidId ` set (contents t)" using Cons.prems(4) that by simp
    moreover have "bidId b \<notin> bidId ` set bs" using Cons.prems(3) by simp
    then have "bidId c \<noteq> bidId b" using that by (metis imageI)
    ultimately show ?thesis unfolding t1(4) by simp
  qed
  then have "\<forall>c \<in> set bs. bidId c \<notin> bidId ` set (contents t1)" by blast
  moreover have "tableSize t1 \<noteq> 0" "distinct (map bidId bs)"
    using Cons.prems(2,3) t1(3) by simp_all
  ultimately obtain t' where
    "run t1 (map Ins bs) = Inr t'" "inv t'" "set (contents t') = set (contents t1) \<union> set bs"
    using Cons.IH [OF t1(2)] by blast
  then show ?case using t1(1,4) by auto
qed

lemma subseq_snoc: "subseq xs ys \<Longrightarrow> subseq xs (ys @ [y])"
  using list_emb_append_mono [of "(=)" xs ys "[]" "[y]"] by simp

lemma subseq_snoc_both: "subseq xs ys \<Longrightarrow> subseq (xs @ [y]) (ys @ [y])"
  using list_emb_append_mono [of "(=)" xs ys "[y]" "[y]"] by simp

lemma run_snoc_Ins:
  "run t (ops @ [Ins b]) = Inr t' \<Longrightarrow> \<exists>t1. run t ops = Inr t1 \<and> Insert t1 b = Inr t'"
  by (auto simp: run_append split: sum.splits)

lemma run_snoc_Rem:
  "run t (ops @ [Rem s]) = Inr t' \<Longrightarrow> \<exists>t1. run t ops = Inr t1 \<and> Remove t1 s = Inr t'"
  by (auto simp: run_append split: sum.splits)

lemma run_subseq:
  "run (HashTable_new sz) ops = Inr t \<Longrightarrow> i < length (nodes t) \<Longrightarrow>
   subseq (map Ins (entries t i)) ops"
proof (induction ops arbitrary: t rule: rev_induct)
  case Nil
  then have t: "t = HashTable_new sz" by simp
  have "i < unat sz" using Nil.prems(2) unfolding t by (simp add: HashTable_new_def)
  then show ?case unfolding t by (simp add: entries_new)
next
  case (snoc x ops)
  show ?case
  proof (cases x)
    case (Ins b)
    with snoc.prems(1) obtain t1 where t1: "run (HashTable_new sz) ops = Inr t1" "Insert t1 b = Inr t"
      using run_snoc_Ins by blast
    have i1: "inv t1" using run_reachable [OF t1(1)] by (rule reachable_inv)
    from Insert_entries [OF i1 t1(2)] snoc.prems(2) have
      l: "i < length (nodes t1)"
      and e: "entries t i = entries t1 i @ [b] \<or> entries t i = entries t1 i"
      by auto
    have ih: "subseq (map Ins (entries t1 i)) ops" by (rule snoc.IH [OF t1(1) l])
    from e show ?thesis
    proof
      assume "entries t i = entries t1 i @ [b]"
      then show ?thesis using subseq_snoc_both [OF ih, of "Ins b"] Ins by simp
    next
      assume "entries t i = entries t1 i"
      then show ?thesis using subseq_snoc [OF ih] by simp
    qed
  next
    case (Rem s)
    with snoc.prems(1) obtain t1 where t1: "run (HashTable_new sz) ops = Inr t1" "Remove t1 s = Inr t"
      using run_snoc_Rem by blast
    have i1: "inv t1" using run_reachable [OF t1(1)] by (rule reachable_inv)
    from Remove_entries [OF i1 t1(2)] snoc.prems(2) have
      l: "i < length (nodes t1)"
      and e: "entries t i = [] \<or> entries t i = filter (\<lambda>b. bidId b \<noteq> s) (entries t1 i)"
      by auto
    have ih: "subseq (map Ins (entries t1 i)) ops" by (rule snoc.IH [OF t1(1) l])
    have "subseq (entries t i) (entries t1 i)" using e by auto
    then have "subseq (map Ins (entries t i)) (map Ins (entries t1 i))" by (rule subseq_map)
    then have "subseq (map Ins (entries t i)) ops" using ih by (rule subseq_order.order_trans)
    then show ?thesis by (rule subseq_snoc)
  qed
qed

section \<open>The value of atoi\<close>

lemma sint_nonneg_uint:
  fixes w :: "32 word"
  assumes "0 \<le> sint w"
  shows "sint w = uint w"
proof -
  have "sint w < 2 ^ (LENGTH(32) - Suc 0)" by (rule sint_less)
  also have "\<dots> \<le> (2 :: int) ^ LENGTH(32)" by (rule power_increasing) simp_all
  finally have lt: "sint w < 2 ^ LENGTH(32)" .
  have "uint w = uint (word_of_int (sint w) :: 32 word)" by (simp only: scast_eq [symmetric] scast_id)
  also have "\<dots> = sint w mod 2 ^ LENGTH(32)" by (rule uint_word_of_int)
  also have "\<dots> = sint w" using assms lt by (rule mod_pos_pos_trivial)
  finally show ?thesis by simp
qed

lemma digits_no_digit: "(case cs of [] \<Rightarrow> True | d # ds \<Rightarrow> \<not> isdigit d) \<Longrightarrow> digits 0 cs = 0"
  by (cases cs) simp_all

lemma no_number_strtol:
  assumes "no_number s"
  shows "strtol s = 0"
proof (cases "dropWhile isspace s")
  case Nil
  show ?thesis unfolding strtol_def Nil by simp
next
  case (Cons c cs)
  show ?thesis
  proof (cases "c = CHR ''-'' \<or> c = CHR ''+''")
    case True
    have "case cs of [] \<Rightarrow> True | d # ds \<Rightarrow> \<not> isdigit d"
      using assms True unfolding no_number_def Cons by simp
    then have "digits 0 cs = 0" by (rule digits_no_digit)
    then show ?thesis unfolding strtol_def Cons using True by (auto simp: clamp_long_def)
  next
    case False
    then have "\<not> isdigit c" using assms unfolding no_number_def Cons by simp
    then show ?thesis unfolding strtol_def Cons using False by (simp add: clamp_long_def)
  qed
qed

lemma no_number_atoi: "no_number s \<Longrightarrow> atoi s = 0"
  by (simp add: atoi_def no_number_strtol)

section \<open>The example tables\<close>

lemma example_table_run:
  "run (HashTable_new 2) (map Ins (map example_bid [''0'', ''2'', ''4'', ''6'', ''1''])) = Inr example_table"
  by code_simp

lemma example_table_reachable: "reachable example_table"
  by (rule run_reachable [OF example_table_run])

lemma example_head_removed_run: "Remove example_table ''0'' = Inr example_head_removed"
  by code_simp

lemma example_head_removed_reachable: "reachable example_head_removed"
  by (rule reachable_Remove [OF example_table_reachable example_head_removed_run])

section \<open>The claims\<close>

text \<open>
  C1. Take records with pairwise different identifiers and insert them, in any order and
  with no \<open>Remove\<close> in between, into a new table. When the table has at least one bucket
  the inserts return normally; and whenever they return, \<open>Search\<close> on each identifier
  returns exactly the record inserted under it.
\<close>

theorem Insert_then_Search:
  assumes "distinct (map bidId bs)"
  shows "(sz \<noteq> 0 \<longrightarrow> (\<exists>t. run (HashTable_new sz) (map Ins bs) = Inr t)) \<and>
         (\<forall>t. run (HashTable_new sz) (map Ins bs) = Inr t \<longrightarrow>
              (\<forall>b \<in> set bs. Search t (bidId b) = Inr b))"
proof -
  have ok: "\<exists>t. run (HashTable_new sz) (map Ins bs) = Inr t \<and>
                (\<forall>b \<in> set bs. Search t (bidId b) = Inr b)" if "sz \<noteq> 0"
  proof -
    have "tableSize (HashTable_new sz) \<noteq> 0" using that by (simp add: HashTable_new_def)
    moreover have "\<forall>b \<in> set bs. bidId b \<notin> bidId ` set (contents (HashTable_new sz))"
      by (simp add: contents_new)
    ultimately obtain t where t: "run (HashTable_new sz) (map Ins bs) = Inr t" "inv t"
      "set (contents t) = set (contents (HashTable_new sz)) \<union> set bs"
      using Insert_all_contents [OF inv_new _ assms] by blast
    then have "\<forall>b \<in> set bs. Search t (bidId b) = Inr b"
      using Search_contents [OF t(2)] by (simp add: contents_new)
    then show ?thesis using t(1) by blast
  qed
  have "\<forall>b \<in> set bs. Search t (bidId b) = Inr b"
    if r: "run (HashTable_new sz) (map Ins bs) = Inr t" for t
  proof (cases "bs = []")
    case True
    then show ?thesis by simp
  next
    case False
    then obtain c cs where bs: "bs = c # cs" by (cases bs) auto
    have "sz \<noteq> 0"
    proof
      assume "sz = 0"
      then have "Insert (HashTable_new sz) c = Inl DivisionByZero"
        by (intro Insert_zero) (simp add: HashTable_new_def)
      then show False using r bs by simp
    qed
    from ok [OF this] r show ?thesis by auto
  qed
  then show ?thesis using ok by blast
qed

theorem Insert_then_Search_witness:
  "distinct (map bidId (map example_bid [''0'', ''2'', ''4'', ''6'', ''1''])) \<and>
   (2 :: 32 word) \<noteq> 0 \<and>
   run (HashTable_new 2) (map Ins (map example_bid [''0'', ''2'', ''4'', ''6'', ''1''])) = Inr example_table \<and>
   Search example_table ''0'' = Inr (example_bid ''0'') \<and>
   Search example_table ''2'' = Inr (example_bid ''2'') \<and>
   Search example_table ''4'' = Inr (example_bid ''4'') \<and>
   Search example_table ''6'' = Inr (example_bid ''6'') \<and>
   Search example_table ''1'' = Inr (example_bid ''1'')"
proof -
  have d: "distinct (map bidId (map example_bid [''0'', ''2'', ''4'', ''6'', ''1'']))"
    by (simp add: example_bid_def)
  have z: "(2 :: 32 word) \<noteq> 0" by simp
  from Insert_then_Search [OF d, of 2] example_table_run
  have "\<forall>b \<in> set (map example_bid [''0'', ''2'', ''4'', ''6'', ''1'']).
          Search example_table (bidId b) = Inr b"
    by blast
  then show ?thesis using z d example_table_run by (simp add: example_bid_def)
qed

text \<open>
  C2. In a reachable table, inserting a record whose identifier is already stored returns
  the table unchanged, and \<open>Search\<close> still returns the record stored first.
\<close>

theorem Insert_duplicate:
  assumes "reachable t" and "b' \<in> set (contents t)" and "bidId b = bidId b'"
  shows "Insert t b = Inr t \<and> Search t (bidId b) = Inr b'"
proof -
  have i: "inv t" by (rule reachable_inv [OF assms(1)])
  from assms(2) obtain j where j: "j < length (nodes t)" "b' \<in> set (entries t j)"
    unfolding contents_entries by blast
  have nz: "tableSize t \<noteq> 0" by (rule inv_nonzero [OF i j(1)])
  have "home t (bidId b) = j" using entries_home [OF i j] assms(3) by simp
  then have "bidId b \<in> bidId ` set (entries t (home t (bidId b)))"
    using j(2) assms(3) by force
  then have "Insert t b = Inr t" by (rule Insert_present [OF i nz])
  moreover have "Search t (bidId b) = Inr b'"
    using Search_contents [OF i assms(2)] assms(3) by simp
  ultimately show ?thesis by simp
qed

theorem Insert_duplicate_witness:
  "reachable example_table \<and>
   example_bid ''4'' \<in> set (contents example_table) \<and>
   bidId \<lparr>bidId = ''4'', title = ''other'', fund = ''other'', amount = 2\<rparr> = bidId (example_bid ''4'') \<and>
   Insert example_table \<lparr>bidId = ''4'', title = ''other'', fund = ''other'', amount = 2\<rparr> = Inr example_table \<and>
   Search example_table ''4'' = Inr (example_bid ''4'')"
proof -
  have m: "example_bid ''4'' \<in> set (contents example_table)" by code_simp
  have e: "bidId \<lparr>bidId = ''4'', title = ''other'', fund = ''other'', amount = 2\<rparr> = bidId (example_bid ''4'')"
    by (simp add: example_bid_def)
  from Insert_duplicate [OF example_table_reachable m e]
  show ?thesis using example_table_reachable m e by simp
qed

text \<open>
  C3 on the code: in the example table the identifier 0 is stored in the head of bucket 0.
  After \<open>Remove\<close> the table no longer lists it, but \<open>Search\<close> still returns its record and
  not the default record. The same on a table of the default size with one record, removed
  and then searched.
\<close>

theorem Search_after_Remove_head:
  "reachable example_table \<and> stored example_table ''0'' \<and>
   Remove example_table ''0'' = Inr example_head_removed \<and>
   \<not> stored example_head_removed ''0'' \<and>
   PrintAll example_head_removed = Inr (example_head_removed, [Key_line 1 (example_bid ''1'')]) \<and>
   Search example_head_removed ''0'' = Inr (example_bid ''0'') \<and>
   example_bid ''0'' \<noteq> Bid_default \<and>
   (case run HashTable_default [Ins (example_bid ''98223''), Rem ''98223''] of
      Inl e \<Rightarrow> Inl e
    | Inr t \<Rightarrow> Search t ''98223'') = Inr (example_bid ''98223'')"
proof -
  have "stored example_table ''0''" by code_simp
  moreover have "\<not> stored example_head_removed ''0''" by code_simp
  moreover have "PrintAll example_head_removed = Inr (example_head_removed, [Key_line 1 (example_bid ''1'')])"
    by code_simp
  moreover have "Search example_head_removed ''0'' = Inr (example_bid ''0'')" by code_simp
  moreover have "example_bid ''0'' \<noteq> Bid_default" by (simp add: example_bid_def Bid_default_def)
  moreover have "(case run HashTable_default [Ins (example_bid ''98223''), Rem ''98223''] of
      Inl e \<Rightarrow> Inl e
    | Inr t \<Rightarrow> Search t ''98223'') = Inr (example_bid ''98223'')"
    by code_simp
  ultimately show ?thesis
    using example_table_reachable example_head_removed_run by (intro conjI)
qed

text \<open>
  C4. On a reachable table with at least one bucket: when the head of the identifier's
  bucket carries the identifier, \<open>Remove\<close> only overwrites the head's key with the empty
  key and its next link with null, so the bucket has no records left and no cell is
  released; when the first match is a chained cell, \<open>Remove\<close> gives the previous node the
  matched cell's next link and releases that one cell, and the other cells stay in the chain
  in their order.
\<close>

theorem Remove_matched_node:
  assumes "reachable t" and "tableSize t \<noteq> 0"
  shows "(bidId (bid (nodes t ! home t s)) = s \<longrightarrow>
            Remove t s = Inr (mark_empty t (home t s)) \<and>
            entries (mark_empty t (home t s)) (home t s) = []) \<and>
         (bidId (bid (nodes t ! home t s)) \<noteq> s \<longrightarrow>
          chain t (home t s) = pre @ c # post \<longrightarrow>
          (\<forall>c' \<in> set pre. bidId (bid (snd c')) \<noteq> s) \<longrightarrow>
          bidId (bid (snd c)) = s \<longrightarrow>
            Remove t s = Inr (unlink t (home t s) pre c) \<and>
            map fst (chain (unlink t (home t s) pre c) (home t s)) = map fst (pre @ post) \<and>
            entries (unlink t (home t s) pre c) (home t s)
              = bid (nodes t ! home t s) # map (\<lambda>d. bid (snd d)) (pre @ post) \<and>
            deref (heap (unlink t (home t s) pre c)) (fst c) = None \<and>
            (\<forall>a. a \<noteq> fst c \<longrightarrow>
               (deref (heap (unlink t (home t s) pre c)) a = None) = (deref (heap t) a = None)))"
proof (intro conjI impI)
  let ?k = "home t s"
  have i: "inv t" by (rule reachable_inv [OF assms(1)])
  have k: "?k < length (nodes t)" using i assms(2) by (rule inv_home_less)
  {
    assume hd: "bidId (bid (nodes t ! ?k)) = s"
    show "Remove t s = Inr (mark_empty t ?k)"
      unfolding mark_empty_def by (rule Remove_head [OF i assms(2) hd])
    show "entries (mark_empty t ?k) ?k = []"
      using k by (simp add: mark_empty_def entries_def)
  }
  {
    assume a: "bidId (bid (nodes t ! ?k)) \<noteq> s" "chain t ?k = pre @ c # post"
      "\<forall>c' \<in> set pre. bidId (bid (snd c')) \<noteq> s" "bidId (bid (snd c)) = s"
    let ?t' = "unlink t ?k pre c"
    show "Remove t s = Inr ?t'" by (rule Remove_unlink [OF i assms(2) a])
    obtain pre' where u: "chain ?t' ?k = pre' @ post" "same_cells pre' pre"
      "key (nodes t ! ?k) \<noteq> UINT_MAX"
      by (rule Remove_cell_step [OF i assms(2) a])
    show "map fst (chain ?t' ?k) = map fst (pre @ post)"
      using u(1) same_cells_fst [OF u(2)] by simp
    have "bid (nodes ?t' ! ?k) = bid (nodes t ! ?k)" "key (nodes ?t' ! ?k) = key (nodes t ! ?k)"
      using k by (simp_all add: unlink_def)
    then show "entries ?t' ?k = bid (nodes t ! ?k) # map (\<lambda>d. bid (snd d)) (pre @ post)"
      using u(1,3) same_cells_bid [OF u(2)] by (simp add: entries_def)
    have "bucket_inv t ?k (chain t ?k)" using i k by (simp add: inv_def)
    then have "path (heap t) (next (nodes t ! ?k)) (pre @ c # post)"
      using a(2) by (simp add: bucket_inv_def)
    from unlink_released [OF this, of ?k]
    show "deref (heap ?t') (fst c) = None"
      and "\<forall>a. a \<noteq> fst c \<longrightarrow> (deref (heap ?t') a = None) = (deref (heap t) a = None)"
      by simp_all
  }
qed

theorem Remove_matched_node_witness:
  "reachable example_table \<and> tableSize example_table \<noteq> 0 \<and>
   bidId (bid (nodes example_table ! home example_table ''0'')) = ''0'' \<and>
   mark_empty example_table (home example_table ''0'') = example_head_removed \<and>
   Remove example_table ''0'' = Inr example_head_removed \<and>
   entries example_table 0 = map example_bid [''0'', ''2'', ''4'', ''6''] \<and>
   entries example_head_removed 0 = [] \<and>
   heap example_head_removed = heap example_table \<and>
   bidId (bid (nodes example_table ! home example_table ''4'')) \<noteq> ''4'' \<and>
   chain example_table (home example_table ''4'')
     = [(0, example_node ''2'' 0 (Some 1))] @ (1, example_node ''4'' 0 (Some 2)) #
       [(2, example_node ''6'' 0 None)] \<and>
   bidId (bid (example_node ''2'' 0 (Some 1))) \<noteq> ''4'' \<and>
   bidId (bid (example_node ''4'' 0 (Some 2))) = ''4'' \<and>
   unlink example_table (home example_table ''4'') [(0, example_node ''2'' 0 (Some 1))]
     (1, example_node ''4'' 0 (Some 2)) = example_spliced \<and>
   Remove example_table ''4'' = Inr example_spliced \<and>
   map fst (chain example_spliced 0) = [0, 2] \<and>
   entries example_spliced 0 = map example_bid [''0'', ''2'', ''6''] \<and>
   deref (heap example_spliced) 1 = None \<and>
   (deref (heap example_spliced) 0 = None) = (deref (heap example_table) 0 = None) \<and>
   (deref (heap example_spliced) 2 = None) = (deref (heap example_table) 2 = None)"
proof -
  let ?pre = "[(0, example_node ''2'' 0 (Some 1))]"
  let ?c = "(1 :: nat, example_node ''4'' 0 (Some 2))"
  let ?post = "[(2, example_node ''6'' 0 None)]"
  have z: "tableSize example_table \<noteq> 0" by (simp add: example_table_def)
  have h0: "home example_table ''0'' = 0" and h4: "home example_table ''4'' = 0" by code_simp+
  have hd0: "bidId (bid (nodes example_table ! 0)) = ''0''" by code_simp
  have hd4: "bidId (bid (nodes example_table ! 0)) \<noteq> ''4''" by code_simp
  have m: "mark_empty example_table 0 = example_head_removed" by code_simp
  have ch: "chain example_table 0 = ?pre @ ?c # ?post" by code_simp
  have p2: "bidId (bid (example_node ''2'' 0 (Some 1))) \<noteq> ''4''" by code_simp
  have p4: "bidId (bid (example_node ''4'' 0 (Some 2))) = ''4''" by code_simp
  have u: "unlink example_table 0 ?pre ?c = example_spliced" by code_simp
  have e: "entries example_table 0 = map example_bid [''0'', ''2'', ''4'', ''6'']" by code_simp
  have hp: "heap example_head_removed = heap example_table"
    by (simp add: example_head_removed_def example_table_def)
  note th = Remove_matched_node [OF example_table_reachable z]
  from th [of "''0''"] h0 hd0 m have
    a: "Remove example_table ''0'' = Inr example_head_removed" "entries example_head_removed 0 = []"
    by simp_all
  from th [of "''4''" ?pre ?c ?post] h4 hd4 ch p2 p4 u have
    b: "Remove example_table ''4'' = Inr example_spliced"
       "map fst (chain example_spliced 0) = [0, 2]"
       "entries example_spliced 0 = bid (nodes example_table ! 0) # map (\<lambda>d. bid (snd d)) (?pre @ ?post)"
       "deref (heap example_spliced) 1 = None"
       "\<forall>a. a \<noteq> 1 \<longrightarrow> (deref (heap example_spliced) a = None) = (deref (heap example_table) a = None)"
    by simp_all
  have b3: "entries example_spliced 0 = map example_bid [''0'', ''2'', ''6'']"
    using b(3) by (simp add: example_table_def example_node_def)
  have b5: "(deref (heap example_spliced) 0 = None) = (deref (heap example_table) 0 = None)"
           "(deref (heap example_spliced) 2 = None) = (deref (heap example_table) 2 = None)"
    using b(5) by simp_all
  show ?thesis
    using example_table_reachable z h0 h4 hd0 hd4 m ch p2 p4 u e hp a b(1,2,4) b3 b5
    by simp
qed

text \<open>
  C5, amended. In a reachable table with at least one bucket, \<open>Remove\<close> of an identifier
  that is not stored returns normally and returns the table unchanged; and in every
  reachable table, whenever such a \<open>Remove\<close> returns, it returns the table unchanged.
\<close>

theorem Remove_absent_unchanged:
  assumes "reachable t" and "\<not> stored t s"
  shows "(tableSize t \<noteq> 0 \<longrightarrow> Remove t s = Inr t) \<and>
         (\<forall>t'. Remove t s = Inr t' \<longrightarrow> t' = t)"
proof -
  have i: "inv t" by (rule reachable_inv [OF assms(1)])
  have ok: "Remove t s = Inr t" if nz: "tableSize t \<noteq> 0"
  proof -
    have k: "home t s < length (nodes t)" using i nz by (rule inv_home_less)
    have "s \<notin> bidId ` set (contents t)" using assms(2) by (simp add: stored_def)
    then have "s \<notin> bidId ` set (entries t (home t s))"
      using k unfolding contents_set by blast
    then show ?thesis using Remove_step [OF i nz, of s] by metis
  qed
  moreover have "t' = t" if "Remove t s = Inr t'" for t'
  proof (cases "tableSize t = 0")
    case True
    then show ?thesis using Remove_zero [of t s] that by simp
  next
    case False
    then show ?thesis using ok that by simp
  qed
  ultimately show ?thesis by blast
qed

theorem Remove_absent_unchanged_witness:
  "reachable example_table \<and> \<not> stored example_table ''8'' \<and> tableSize example_table \<noteq> 0 \<and>
   Remove example_table ''8'' = Inr example_table"
proof -
  have z: "tableSize example_table \<noteq> 0" by (simp add: example_table_def)
  have n: "\<not> stored example_table ''8''" by code_simp
  from Remove_absent_unchanged [OF example_table_reachable n]
  show ?thesis using example_table_reachable z n by simp
qed

text \<open>
  C5 as stated fails on a table constructed with bucket count 0: the table is reachable,
  no identifier is stored in it, and \<open>Remove\<close> does not return a normal negative result
  but computes a remainder by zero.
\<close>

theorem Remove_absent_zero_buckets_counterexample:
  "reachable (HashTable_new 0) \<and> \<not> stored (HashTable_new 0) ''8'' \<and>
   Remove (HashTable_new 0) ''8'' = Inl DivisionByZero"
proof -
  have "\<not> stored (HashTable_new 0) ''8''" by code_simp
  moreover have "Remove (HashTable_new 0) ''8'' = Inl DivisionByZero" by code_simp
  ultimately show ?thesis using reachable_new [of 0] by (intro conjI)
qed

text \<open>
  C6, amended. On every reachable table \<open>PrintAll\<close> returns normally and leaves the table
  as it is; when the table has at least one bucket, \<open>Insert\<close>, \<open>Search\<close> and \<open>Remove\<close>
  return normally for every argument; when it has none, each of the three divides by zero.
\<close>

theorem operations_return:
  assumes "reachable t"
  shows "(\<exists>ls. PrintAll t = Inr (t, ls)) \<and>
         (tableSize t \<noteq> 0 \<longrightarrow>
            (\<exists>t'. Insert t b = Inr t') \<and> (\<exists>r. Search t s = Inr r) \<and> (\<exists>t'. Remove t s = Inr t')) \<and>
         (tableSize t = 0 \<longrightarrow>
            Insert t b = Inl DivisionByZero \<and> Search t s = Inl DivisionByZero \<and>
            Remove t s = Inl DivisionByZero)"
proof -
  have i: "inv t" by (rule reachable_inv [OF assms])
  have "\<exists>ls. PrintAll t = Inr (t, ls)" using PrintAll_inv [OF i] by blast
  moreover have "\<exists>t'. Insert t b = Inr t'" if "tableSize t \<noteq> 0"
    using Insert_step [OF i that, of b] by blast
  moreover have "\<exists>r. Search t s = Inr r" if "tableSize t \<noteq> 0"
    by (rule Search_returns [OF i that])
  moreover have "\<exists>t'. Remove t s = Inr t'" if "tableSize t \<noteq> 0"
    using Remove_step [OF i that, of s] by metis
  ultimately show ?thesis
    using Insert_zero [of t b] Search_zero [of t s] Remove_zero [of t s] by blast
qed

theorem operations_return_witness:
  "reachable example_table \<and> tableSize example_table \<noteq> 0 \<and>
   PrintAll example_table =
     Inr (example_table,
          [Key_line 0 (example_bid ''0''), Chain_line (example_bid ''2''),
           Chain_line (example_bid ''4''), Chain_line (example_bid ''6''),
           Key_line 1 (example_bid ''1'')]) \<and>
   (\<exists>t'. Insert example_table (example_bid ''8'') = Inr t') \<and>
   Search example_table ''8'' = Inr Bid_default \<and>
   Remove example_table ''8'' = Inr example_table \<and>
   reachable (HashTable_new 0) \<and> tableSize (HashTable_new 0) = 0 \<and>
   PrintAll (HashTable_new 0) = Inr (HashTable_new 0, []) \<and>
   Insert (HashTable_new 0) (example_bid ''8'') = Inl DivisionByZero \<and>
   Search (HashTable_new 0) ''8'' = Inl DivisionByZero \<and>
   Remove (HashTable_new 0) ''8'' = Inl DivisionByZero"
proof -
  have z: "tableSize example_table \<noteq> 0" by (simp add: example_table_def)
  have z0: "tableSize (HashTable_new 0) = 0" by (simp add: HashTable_new_def)
  have p: "PrintAll example_table =
     Inr (example_table,
          [Key_line 0 (example_bid ''0''), Chain_line (example_bid ''2''),
           Chain_line (example_bid ''4''), Chain_line (example_bid ''6''),
           Key_line 1 (example_bid ''1'')])"
    by code_simp
  have s: "Search example_table ''8'' = Inr Bid_default" by code_simp
  have r: "Remove example_table ''8'' = Inr example_table" by code_simp
  have p0: "PrintAll (HashTable_new 0) = Inr (HashTable_new 0, [])" by code_simp
  from operations_return [OF example_table_reachable, of "example_bid ''8''" "''8''"]
    operations_return [OF reachable_new, of 0 "example_bid ''8''" "''8''"]
  show ?thesis using example_table_reachable reachable_new [of 0] z z0 p s r p0 by simp
qed

text \<open>
  C6 as stated fails: on a table constructed with bucket count 0 none of \<open>Insert\<close>,
  \<open>Search\<close> and \<open>Remove\<close> fails safely, each computes a remainder by zero.
\<close>

theorem zero_buckets_counterexample:
  "Insert (HashTable_new 0) Bid_default = Inl DivisionByZero \<and>
   Search (HashTable_new 0) [] = Inl DivisionByZero \<and>
   Remove (HashTable_new 0) [] = Inl DivisionByZero"
  by code_simp

text \<open>
  C7, amended. On a reachable table with at least one bucket the bucket of an identifier
  is the value of \<open>atoi\<close>, read as an unsigned 32-bit number, modulo the table size. For
  an identifier whose \<open>atoi\<close> value is not negative this is that value modulo the table
  size; an identifier with no leading number goes to bucket 0. \<open>Search\<close> starts its walk
  at the head of this bucket, and \<open>Insert\<close> and \<open>Remove\<close> leave every other bucket as it
  was.
\<close>

theorem bucket_of_identifier:
  assumes "reachable t" and "tableSize t \<noteq> 0"
  shows "hash t (atoi s) = Inr (of_nat (home t s)) \<and>
         home t s < length (nodes t) \<and>
         home t s = unat (atoi s) mod unat (tableSize t) \<and>
         (0 \<le> sint (atoi s) \<longrightarrow> home t s = nat (sint (atoi s)) mod unat (tableSize t)) \<and>
         (no_number s \<longrightarrow> home t s = 0) \<and>
         Search t s = Search_loop (fuel t) t s (Some (Slot (home t s))) \<and>
         (\<forall>b t'. bidId b = s \<longrightarrow> Insert t b = Inr t' \<longrightarrow>
            (\<forall>i < length (nodes t). i \<noteq> home t s \<longrightarrow>
               nodes t' ! i = nodes t ! i \<and> chain t' i = chain t i)) \<and>
         (\<forall>t'. Remove t s = Inr t' \<longrightarrow>
            (\<forall>i < length (nodes t). i \<noteq> home t s \<longrightarrow>
               nodes t' ! i = nodes t ! i \<and> chain t' i = chain t i))"
proof -
  have i: "inv t" by (rule reachable_inv [OF assms(1)])
  have len: "length (nodes t) = unat (tableSize t)" using i by (simp add: inv_def)
  have "hash t (atoi s) = Inr (of_nat (home t s))"
    using assms(2) by (simp add: hash_def home_def)
  moreover have "home t s < length (nodes t)" using i assms(2) by (rule inv_home_less)
  moreover have u: "home t s = unat (atoi s) mod unat (tableSize t)"
    by (simp add: home_def unat_mod)
  moreover have "home t s = nat (sint (atoi s)) mod unat (tableSize t)" if "0 \<le> sint (atoi s)"
  proof -
    have "sint (atoi s) = uint (atoi s)" using that by (rule sint_nonneg_uint)
    then have "nat (sint (atoi s)) = unat (atoi s)" by simp
    then show ?thesis using u by simp
  qed
  moreover have "home t s = 0" if "no_number s"
    using no_number_atoi [OF that] by (simp add: home_def)
  moreover have "Search t s = Search_loop (fuel t) t s (Some (Slot (home t s)))"
    by (rule Search_start [OF assms(2) len])
  moreover have "\<forall>i < length (nodes t). i \<noteq> home t s \<longrightarrow>
               nodes t' ! i = nodes t ! i \<and> chain t' i = chain t i"
    if "bidId b = s" "Insert t b = Inr t'" for b t'
    using Insert_step [OF i assms(2), of b] that by auto
  moreover have "\<forall>i < length (nodes t). i \<noteq> home t s \<longrightarrow>
               nodes t' ! i = nodes t ! i \<and> chain t' i = chain t i"
    if "Remove t s = Inr t'" for t'
    using Remove_step [OF i assms(2), of s] that by (metis Inr_inject)
  ultimately show ?thesis by blast
qed

theorem bucket_of_identifier_witness:
  "reachable example_table \<and> tableSize example_table \<noteq> 0 \<and>
   hash example_table (atoi ''0'') = Inr 0 \<and>
   home example_table ''0'' = 0 \<and>
   home example_table ''0'' < length (nodes example_table) \<and>
   Search example_table ''0'' = Search_loop (fuel example_table) example_table ''0'' (Some (Slot 0)) \<and>
   bidId (example_bid ''0'') = ''0'' \<and>
   Insert example_table (example_bid ''0'') = Inr example_table \<and>
   Remove example_table ''0'' = Inr example_head_removed \<and>
   nodes example_head_removed ! 1 = nodes example_table ! 1 \<and>
   chain example_head_removed 1 = chain example_table 1 \<and>
   0 \<le> sint (atoi ''3'') \<and>
   home example_table ''3'' = nat (sint (atoi ''3'')) mod unat (tableSize example_table) \<and>
   home example_table ''3'' = 1 \<and>
   home example_table ''-1'' = unat (atoi ''-1'') mod unat (tableSize example_table) \<and>
   home example_table ''-1'' = 1 \<and>
   no_number ''abc'' \<and> home example_table ''abc'' = 0"
proof -
  have z: "tableSize example_table \<noteq> 0" by (simp add: example_table_def)
  note th = bucket_of_identifier [OF example_table_reachable z]
  have h0: "home example_table ''0'' = 0" by code_simp
  have h3: "home example_table ''3'' = 1" by code_simp
  have hm: "home example_table ''-1'' = 1" by code_simp
  have s3: "0 \<le> sint (atoi ''3'')" by code_simp
  have nn: "no_number ''abc''" by code_simp
  have b0: "bidId (example_bid ''0'') = ''0''" by (simp add: example_bid_def)
  have ins: "Insert example_table (example_bid ''0'') = Inr example_table" by code_simp
  have l: "(1::nat) < length (nodes example_table)" by (simp add: example_table_def)
  from th [of "''0''"] h0 have
    a: "hash example_table (atoi ''0'') = Inr 0"
       "home example_table ''0'' < length (nodes example_table)"
       "Search example_table ''0'' = Search_loop (fuel example_table) example_table ''0'' (Some (Slot 0))"
    and b: "\<forall>t'. Remove example_table ''0'' = Inr t' \<longrightarrow>
            (\<forall>i < length (nodes example_table). i \<noteq> 0 \<longrightarrow>
               nodes t' ! i = nodes example_table ! i \<and> chain t' i = chain example_table i)"
    by simp_all
  from b example_head_removed_run l have
    c: "nodes example_head_removed ! 1 = nodes example_table ! 1"
       "chain example_head_removed 1 = chain example_table 1"
    by simp_all
  from th [of "''3''"] s3 have
    d: "home example_table ''3'' = nat (sint (atoi ''3'')) mod unat (tableSize example_table)"
    by simp
  from th [of "''-1''"] have
    e: "home example_table ''-1'' = unat (atoi ''-1'') mod unat (tableSize example_table)"
    by simp
  from th [of "''abc''"] nn have f: "home example_table ''abc'' = 0" by simp
  show ?thesis
    using example_table_reachable z h0 h3 hm s3 nn b0 ins example_head_removed_run a c d e f
    by simp
qed

text \<open>
  C7 as stated fails for an identifier that parses to a negative number: in a table of size
  5 the identifier -1 goes to bucket 0, while -1 modulo 5 is 4 (and the remainder of the
  truncating division of C is -1).
\<close>

theorem negative_identifier_counterexample:
  "sint (atoi ''-1'') = - 1 \<and>
   hash (HashTable_new 5) (atoi ''-1'') = Inr 0 \<and>
   (- 1 :: int) mod 5 = 4 \<and> (- 1 :: int) smod 5 = - 1 \<and>
   hash (HashTable_new 5) (atoi ''-1'')
     \<noteq> Inr (word_of_int (sint (atoi ''-1'') mod uint (tableSize (HashTable_new 5)))) \<and>
   hash (HashTable_new 5) (atoi ''-1'')
     \<noteq> Inr (word_of_int (sint (atoi ''-1'') smod uint (tableSize (HashTable_new 5))))"
proof -
  have a: "atoi ''-1'' = - 1" by code_simp
  have h: "hash (HashTable_new 5) (atoi ''-1'') = Inr 0" by code_simp
  have m: "(- 1 :: int) smod 5 = - 1" by (simp add: signed_modulo_int_def)
  have u: "uint (tableSize (HashTable_new 5)) = 5" by (simp add: HashTable_new_def)
  have "(word_of_int 4 :: 32 word) \<noteq> 0" "(word_of_int (- 1) :: 32 word) \<noteq> 0" by simp_all
  then show ?thesis unfolding h u using a m by simp
qed

text \<open>
  C8 on the code: the scenario on a table of size 5. \<open>Search\<close> finds 5 after the four
  inserts; after \<open>Remove\<close> of 0 the chain of bucket 0 is gone, \<open>Search\<close> of 5 returns the
  default record and \<open>PrintAll\<close> writes one record, not three.
\<close>

theorem scenario_on_the_code:
  "run (HashTable_new 5) (map Ins (map example_bid [''0'', ''5'', ''10'', ''1''])) = Inr scenario_table \<and>
   Search scenario_table ''5'' = Inr (example_bid ''5'') \<and>
   Remove scenario_table ''0'' = Inr scenario_head_removed \<and>
   Search scenario_head_removed ''5'' = Inr Bid_default \<and>
   PrintAll scenario_head_removed = Inr (scenario_head_removed, [Key_line 1 (example_bid ''1'')])"
proof -
  have "run (HashTable_new 5) (map Ins (map example_bid [''0'', ''5'', ''10'', ''1''])) = Inr scenario_table"
    by code_simp
  moreover have "Search scenario_table ''5'' = Inr (example_bid ''5'')" by code_simp
  moreover have "Remove scenario_table ''0'' = Inr scenario_head_removed" by code_simp
  moreover have "Search scenario_head_removed ''5'' = Inr Bid_default" by code_simp
  moreover have "PrintAll scenario_head_removed = Inr (scenario_head_removed, [Key_line 1 (example_bid ''1'')])"
    by code_simp
  ultimately show ?thesis by (intro conjI)
qed

text \<open>
  C9. In a reachable table, \<open>Insert\<close> puts a record with a new identifier at the end of its
  bucket and changes no other bucket and no order; \<open>Remove\<close> empties the bucket whose
  first record matches and otherwise takes the matching record out and keeps the others in
  their order; \<open>PrintAll\<close> returns the table as it was and writes the buckets by ascending
  index, each head first and then its chain in chain order; and the records of each bucket
  stand in the order of the \<open>Insert\<close> calls that put them there.
\<close>

theorem chain_is_insertion_order:
  assumes "reachable t"
  shows "(\<forall>b t'. Insert t b = Inr t' \<longrightarrow>
            (\<forall>i < length (nodes t). entries t' i =
               (if i = home t (bidId b) \<and> bidId b \<notin> bidId ` set (entries t i)
                then entries t i @ [b] else entries t i))) \<and>
         (\<forall>s t'. Remove t s = Inr t' \<longrightarrow>
            (\<forall>i < length (nodes t). entries t' i =
               (if entries t i \<noteq> [] \<and> bidId (hd (entries t i)) = s then []
                else filter (\<lambda>b. bidId b \<noteq> s) (entries t i)))) \<and>
         PrintAll t = Inr (t, concat (map (\<lambda>i. bucket_lines i (entries t i)) [0..<length (nodes t)])) \<and>
         (\<forall>sz ops. run (HashTable_new sz) ops = Inr t \<longrightarrow>
            (\<forall>i < length (nodes t). subseq (map Ins (entries t i)) ops))"
proof -
  have i: "inv t" by (rule reachable_inv [OF assms])
  show ?thesis
    using Insert_entries [OF i] Remove_entries [OF i] PrintAll_inv [OF i] run_subseq [of _ _ t]
    by blast
qed

theorem chain_is_insertion_order_witness:
  "reachable example_table \<and>
   entries example_table 0 = map example_bid [''0'', ''2'', ''4'', ''6''] \<and>
   entries example_table 1 = [example_bid ''1''] \<and>
   Insert example_table (example_bid ''8'') = Inr example_appended \<and>
   entries example_appended 0 = map example_bid [''0'', ''2'', ''4'', ''6'', ''8''] \<and>
   entries example_appended 1 = [example_bid ''1''] \<and>
   Remove example_table ''4'' = Inr example_spliced \<and>
   entries example_spliced 0 = map example_bid [''0'', ''2'', ''6''] \<and>
   entries example_spliced 1 = [example_bid ''1''] \<and>
   Remove example_table ''0'' = Inr example_head_removed \<and>
   entries example_head_removed 0 = [] \<and>
   PrintAll example_table =
     Inr (example_table,
          [Key_line 0 (example_bid ''0''), Chain_line (example_bid ''2''),
           Chain_line (example_bid ''4''), Chain_line (example_bid ''6''),
           Key_line 1 (example_bid ''1'')]) \<and>
   run (HashTable_new 2) (map Ins (map example_bid [''0'', ''2'', ''4'', ''6'', ''1''])) = Inr example_table \<and>
   subseq (map Ins (map example_bid [''0'', ''2'', ''4'', ''6'']))
     (map Ins (map example_bid [''0'', ''2'', ''4'', ''6'', ''1'']))"
proof -
  note th = chain_is_insertion_order [OF example_table_reachable]
  have l: "(0::nat) < length (nodes example_table)" "(1::nat) < length (nodes example_table)"
    "[0..<length (nodes example_table)] = [0, 1]"
    by (simp_all add: example_table_def upt_rec)
  have e0: "entries example_table 0 = map example_bid [''0'', ''2'', ''4'', ''6'']"
    and e1: "entries example_table 1 = [example_bid ''1'']" by code_simp+
  have e1': "entries example_table (Suc 0) = [example_bid ''1'']" using e1 by simp
  have h8: "home example_table ''8'' = 0" by code_simp
  have ins: "Insert example_table (example_bid ''8'') = Inr example_appended" by code_simp
  have r4: "Remove example_table ''4'' = Inr example_spliced" by code_simp
  from th ins have A:
    "\<forall>i < length (nodes example_table). entries example_appended i =
       (if i = home example_table (bidId (example_bid ''8'')) \<and>
           bidId (example_bid ''8'') \<notin> bidId ` set (entries example_table i)
        then entries example_table i @ [example_bid ''8''] else entries example_table i)"
    by blast
  have a:
    "entries example_appended 0 = map example_bid [''0'', ''2'', ''4'', ''6'', ''8'']"
    "entries example_appended 1 = [example_bid ''1'']"
    using A [rule_format, OF l(1)] A [rule_format, OF l(2)]
    by (simp_all add: e0 e1' h8 example_bid_def)
  from th r4 have B:
    "\<forall>i < length (nodes example_table). entries example_spliced i =
       (if entries example_table i \<noteq> [] \<and> bidId (hd (entries example_table i)) = ''4'' then []
        else filter (\<lambda>b. bidId b \<noteq> ''4'') (entries example_table i))"
    by blast
  have b:
    "entries example_spliced 0 = map example_bid [''0'', ''2'', ''6'']"
    "entries example_spliced 1 = [example_bid ''1'']"
    using B [rule_format, OF l(1)] B [rule_format, OF l(2)]
    by (simp_all add: e0 e1' example_bid_def)
  from th example_head_removed_run have C:
    "\<forall>i < length (nodes example_table). entries example_head_removed i =
       (if entries example_table i \<noteq> [] \<and> bidId (hd (entries example_table i)) = ''0'' then []
        else filter (\<lambda>b. bidId b \<noteq> ''0'') (entries example_table i))"
    by blast
  have c: "entries example_head_removed 0 = []"
    using C [rule_format, OF l(1)] by (simp add: e0 example_bid_def)
  from th have "PrintAll example_table =
     Inr (example_table, concat (map (\<lambda>i. bucket_lines i (entries example_table i)) [0..<length (nodes example_table)]))"
    by blast
  then have d: "PrintAll example_table =
     Inr (example_table,
          [Key_line 0 (example_bid ''0''), Chain_line (example_bid ''2''),
           Chain_line (example_bid ''4''), Chain_line (example_bid ''6''),
           Key_line 1 (example_bid ''1'')])"
    unfolding l(3) by (simp add: e0 e1')
  from th example_table_run l(1) have
    "subseq (map Ins (entries example_table 0)) (map Ins (map example_bid [''0'', ''2'', ''4'', ''6'', ''1'']))"
    by blast
  then have f: "subseq (map Ins (map example_bid [''0'', ''2'', ''4'', ''6'']))
     (map Ins (map example_bid [''0'', ''2'', ''4'', ''6'', ''1'']))"
    unfolding e0 .
  show ?thesis
    using example_table_reachable e0 e1 ins a r4 b example_head_removed_run c d example_table_run f
    by (intro conjI)
qed

text \<open>
  C10. In a reachable table, a head slot that carries the empty key has a null next link.
\<close>

theorem empty_head_has_no_chain:
  assumes "reachable t" and "i < length (nodes t)" and "key (nodes t ! i) = UINT_MAX"
  shows "next (nodes t ! i) = None"
proof -
  have "bucket_inv t i (chain t i)"
    using reachable_inv [OF assms(1)] assms(2) by (simp add: inv_def)
  then show ?thesis using assms(3) by (simp add: bucket_inv_def)
qed

theorem empty_head_has_no_chain_witness:
  "reachable example_head_removed \<and> 0 < length (nodes example_head_removed) \<and>
   key (nodes example_head_removed ! 0) = UINT_MAX \<and>
   next (nodes example_head_removed ! 0) = None"
proof -
  have l: "0 < length (nodes example_head_removed)" by (simp add: example_head_removed_def)
  have k: "key (nodes example_head_removed ! 0) = UINT_MAX"
    by (simp add: example_head_removed_def example_node_def)
  from empty_head_has_no_chain [OF example_head_removed_reachable l k]
  show ?thesis using example_head_removed_reachable l k by simp
qed

end
